theory Spec2Isabelle
  imports Complex_Main
begin

section \<open>The stored table of \<open>StoredTable<N>\<close>\<close>

text \<open>
  The class template \<open>StoredTable<N>\<close> gives read access to one tabulated quantity of a
  stored table file. After \<open>open()\<close> its data members are pointers into the mapped file:
  \<open>_axBeg[k]\<close> points to the \<open>_axLen[k]\<close> grid points of axis \<open>k\<close>, \<open>_qtyBeg\<close> to the first
  value of the quantity, \<open>_qtyStep\<close> is the distance between two values of the quantity,
  and \<open>_axLog[k]\<close>, \<open>_qtyLog\<close> are the interpolation flags.

  The model keeps a pointer together with the memory it may address: \<open>axBeg t ! k\<close> is the
  list of the \<open>_axLen[k]\<close> grid points of axis \<open>k\<close>, and \<open>qtyBeg t\<close> is the list of the doubles
  from \<open>_qtyBeg\<close> up to the end of the value block. The template parameter \<open>N\<close> is the number
  of axes, \<open>length (axBeg t)\<close>. A read outside these lists is undefined behaviour in C++; in
  the model it is the result \<open>None\<close>.

  A \<open>double\<close> is modelled as a \<open>real\<close>: rounding, infinities and NaN are outside the model.
  The one division whose divisor can be zero on an opened table, the normalization in
  \<open>cdf\<close>, has a result type of its own. A \<open>size_t\<close> is modelled as a \<open>nat\<close>, 64 bits wide; where the
  source can wrap around (an index \<open>right - 1\<close> at \<open>right = 0\<close>, the sum \<open>minRight + n\<close>) the
  wrap is written out. Exhausted memory is outside the model.
\<close>

type_synonym Array = "real list"

record StoredTable =
  axBeg :: "real list list"
  qtyBeg :: "real list"
  qtyStep :: nat
  axLog :: "bool list"
  qtyLog :: bool

definition axLen :: "StoredTable \<Rightarrow> nat \<Rightarrow> nat" where
  "axLen t k = length (axBeg t ! k)"

definition size_max :: nat where
  "size_max = 2 ^ 64"

text \<open>A read \<open>p[i]\<close> through a pointer \<open>p\<close> to \<open>length xs\<close> doubles.\<close>

definition rd :: "real list \<Rightarrow> nat \<Rightarrow> real option" where
  "rd xs i = (if i < length xs then Some (xs ! i) else None)"

text \<open>
  \<open>std::lower_bound(first, last, x) - first\<close>: the index of the first element of the range
  that is not less than \<open>x\<close>, or the length of the range when there is none. This is the
  result that the C++ standard requires for a range whose elements less than \<open>x\<close> all come
  before the others, as in every sorted range; the search itself is the library's.
\<close>

fun lower_bound :: "real list \<Rightarrow> real \<Rightarrow> nat" where
  "lower_bound [] x = 0"
| "lower_bound (g # gs) x = (if g < x then Suc (lower_bound gs x) else 0)"

subsection \<open>\<open>operator()\<close>: the interpolated value\<close>

text \<open>
  The body of the first loop of \<open>operator()\<close> for one axis, in two parts. The second part
  reads the grid borders \<open>x1 = _axBeg[k][right-1]\<close> and \<open>x2 = _axBeg[k][right]\<close>, takes the
  logarithms on a logarithmic axis and returns \<open>i2[k] = right\<close> with the fraction \<open>f[k]\<close>.
  The index \<open>right - 1\<close> at \<open>right = 0\<close> wraps to the largest \<open>size_t\<close>, which is outside
  every array.
\<close>

definition bin_frac :: "bool \<Rightarrow> real \<Rightarrow> real \<Rightarrow> real \<Rightarrow> real" where
  "bin_frac lg x x1 x2 =
     (if lg then (log 10 x - log 10 x1) / (log 10 x2 - log 10 x1)
      else (x - x1) / (x2 - x1))"

definition axis_frac :: "real list \<Rightarrow> bool \<Rightarrow> nat \<Rightarrow> real \<Rightarrow> (nat \<times> real) option" where
  "axis_frac grid lg right x =
     (if right = 0 then None
      else case rd grid (right - 1) of
        None \<Rightarrow> None
      | Some x1 \<Rightarrow>
         (case rd grid right of
            None \<Rightarrow> None
          | Some x2 \<Rightarrow> Some (right, bin_frac lg x x1 x2)))"

text \<open>
  The first part finds \<open>right\<close> with \<open>std::lower_bound\<close> and, when the value is beyond the
  grid borders, adjusts both the bin border and the value.
\<close>

definition axis_bin :: "real list \<Rightarrow> bool \<Rightarrow> real \<Rightarrow> (nat \<times> real) option" where
  "axis_bin grid lg x0 =
     (let right0 = lower_bound grid x0 in
      if right0 = 0 then
        (case rd grid 0 of None \<Rightarrow> None | Some x \<Rightarrow> axis_frac grid lg 1 x)
      else if right0 = length grid then
        (case rd grid (right0 - 1) of
           None \<Rightarrow> None
         | Some x \<Rightarrow> axis_frac grid lg (right0 - 1) x)
      else axis_frac grid lg right0 x0)"

text \<open>The first loop: \<open>(i2[k], f[k])\<close> for every axis \<open>k = 0 .. N-1\<close>.\<close>

definition precompute :: "StoredTable \<Rightarrow> real list \<Rightarrow> (nat \<times> real) list option" where
  "precompute t vals =
     those (map (\<lambda>k. axis_bin (axBeg t ! k) (axLog t ! k) (vals ! k))
              [0..<length (axBeg t)])"

text \<open>
  \<open>flattenedIndex\<close>: \<open>result = indices[N-1]\<close>, then
  \<open>result = result * _axLen[k] + indices[k]\<close> for \<open>k = N-2\<close> down to \<open>0\<close>, times \<open>_qtyStep\<close>.
\<close>

fun flat :: "nat list \<Rightarrow> nat list \<Rightarrow> nat" where
  "flat (l # ls) (i # j # js) = flat ls (j # js) * l + i"
| "flat ls (i # js) = i"
| "flat ls [] = 0"

definition flattenedIndex :: "StoredTable \<Rightarrow> nat list \<Rightarrow> nat" where
  "flattenedIndex t indices = flat (map length (axBeg t)) indices * qtyStep t"

definition valueAtIndices :: "StoredTable \<Rightarrow> nat list \<Rightarrow> real option" where
  "valueAtIndices t indices = rd (qtyBeg t) (flattenedIndex t indices)"

text \<open>
  The inner loop over the axes for one term: the lowest bit of \<open>term\<close> chooses the lower
  border (\<open>left = 1\<close>) or the upper border of the bin, \<open>term >>= 1\<close> moves to the next axis.
  The result is the array \<open>indices\<close> and the front factor.
\<close>

fun term_loop :: "nat \<Rightarrow> real \<Rightarrow> (nat \<times> real) list \<Rightarrow> nat list \<times> real" where
  "term_loop term front [] = ([], front)"
| "term_loop term front ((i2, f) # rest) =
     (let left = term mod 2;
          r = term_loop (term div 2) (front * (if left \<noteq> 0 then 1 - f else f)) rest
      in ((i2 - left) # fst r, snd r))"

text \<open>The arrays \<open>ff\<close> and \<open>yy\<close> of the \<open>2^N\<close> terms, as a list of pairs \<open>(ff[t], yy[t])\<close>.\<close>

definition terms :: "StoredTable \<Rightarrow> (nat \<times> real) list \<Rightarrow> (real \<times> real) list option" where
  "terms t pre =
     those (map (\<lambda>tt. map_option (Pair (snd (term_loop tt 1 pre)))
                        (valueAtIndices t (fst (term_loop tt 1 pre))))
              [0..<2 ^ length pre])"

text \<open>
  The sum: \<open>logy\<close> starts as \<open>_qtyLog\<close> and is cleared by every term with \<open>yy[t] <= 0\<close>.
\<close>

definition interpolate :: "bool \<Rightarrow> (real \<times> real) list \<Rightarrow> real" where
  "interpolate qlog tys =
     (if qlog \<and> (\<forall>ty \<in> set tys. \<not> snd ty \<le> 0)
      then 10 powr (foldl (\<lambda>y ty. y + fst ty * log 10 (snd ty)) 0 tys)
      else foldl (\<lambda>y ty. y + fst ty * snd ty) 0 tys)"

definition op_call :: "StoredTable \<Rightarrow> real list \<Rightarrow> real option" where
  "op_call t vals =
     (case precompute t vals of
        None \<Rightarrow> None
      | Some pre \<Rightarrow>
          (case terms t pre of
             None \<Rightarrow> None
           | Some tys \<Rightarrow> Some (interpolate (qtyLog t) tys)))"

text \<open>\<open>operator[]\<close> of a one-dimensional table: \<open>return operator()(value)\<close>.\<close>

definition op_index :: "StoredTable \<Rightarrow> real \<Rightarrow> real option" where
  "op_index t v = op_call t [v]"

subsection \<open>An opened table\<close>

text \<open>
  What \<open>open()\<close> establishes and the statements below take for granted: at least one axis (the
  \<open>static_assert\<close>), a flag for every axis, at least two strictly increasing grid points on
  every axis, and a value block that holds a value of the quantity for every combination
  of grid indices (the last one at \<open>(numPoints1 * ... * numPointsN - 1) * _qtyStep\<close>).
\<close>

definition opened :: "StoredTable \<Rightarrow> bool" where
  "opened t \<longleftrightarrow>
     1 \<le> length (axBeg t) \<and> length (axLog t) = length (axBeg t) \<and>
     (\<forall>g \<in> set (axBeg t). 2 \<le> length g \<and> sorted_wrt (<) g) \<and>
     (prod_list (map length (axBeg t)) - 1) * qtyStep t < length (qtyBeg t)"

subsection \<open>\<open>cdf\<close>: the cumulative distribution along the first axis\<close>

text \<open>
  Modelled from the spec: \<open>NR::buildLinearGrid\<close> is declared in \<open>NR.hpp\<close>, which is not among
  the sources. The spec asks for a uniform linear grid of exactly \<open>n\<close> bins, that is
  \<open>n + 1\<close> border points from \<open>xmin\<close> to \<open>xmax\<close> at equal distances.
\<close>

definition buildLinearGrid :: "real \<Rightarrow> real \<Rightarrow> nat \<Rightarrow> Array" where
  "buildLinearGrid xmin xmax n =
     map (\<lambda>i. xmin + (xmax - xmin) * (real i / real n)) [0..<n + 1]"

text \<open>
  Modelled from the spec: \<open>NR::buildLogGrid\<close> is declared in \<open>NR.hpp\<close>, which is not among
  the sources. The spec asks for a uniform logarithmic grid of exactly \<open>n\<close> bins, that is
  \<open>n + 1\<close> border points from \<open>xmin\<close> to \<open>xmax\<close> with equal ratios.
\<close>

definition buildLogGrid :: "real \<Rightarrow> real \<Rightarrow> nat \<Rightarrow> Array" where
  "buildLogGrid xmin xmax n =
     map (\<lambda>i. xmin * (xmax / xmin) powr (real i / real n)) [0..<n + 1]"

text \<open>
  The test of \<open>cdf\<close> that chooses between the internal grid and a new grid. The sum
  \<open>minRight + n\<close> is a \<open>size_t\<close> sum and wraps around at \<open>2^64\<close>.
\<close>

definition cdf_reuses :: "StoredTable \<Rightarrow> nat \<Rightarrow> real \<Rightarrow> real \<Rightarrow> bool" where
  "cdf_reuses t minBins xmin xmax \<longleftrightarrow>
     (lower_bound (axBeg t ! 0) xmin + max 1 minBins) mod size_max
       \<le> lower_bound (axBeg t ! 0) xmax"

text \<open>
  The first part of \<open>cdf\<close>: the number of bins \<open>n\<close> and the array \<open>xv\<close> of the \<open>n + 1\<close>
  border points. When the internal grid is used, \<open>xv\<close> receives \<open>xmin\<close>, the grid points
  with index from \<open>minRight\<close> up to but not including \<open>maxRight\<close>, and \<open>xmax\<close>.

  The test can only succeed with \<open>maxRight < minRight\<close> when the sum has wrapped around.
  Then \<open>n = 1 + maxRight - minRight\<close> wraps around as well and \<open>xv\<close> is resized to a size that
  is either below the two elements written or beyond the address space: the call yields no
  arrays, which is the result \<open>None\<close>.
\<close>

definition cdf_grid :: "StoredTable \<Rightarrow> nat \<Rightarrow> real \<Rightarrow> real \<Rightarrow> (nat \<times> Array) option" where
  "cdf_grid t minBins xmin xmax =
     (let n = max 1 minBins;
          minRight = lower_bound (axBeg t ! 0) xmin;
          maxRight = lower_bound (axBeg t ! 0) xmax
      in if cdf_reuses t minBins xmin xmax then
           (if maxRight < minRight then None
            else Some (1 + maxRight - minRight,
                       xmin # take (maxRight - minRight) (drop minRight (axBeg t ! 0)) @ [xmax]))
         else Some (n, if axLog t ! 0 then buildLogGrid xmin xmax n
                       else buildLinearGrid xmin xmax n))"

text \<open>
  The loop of \<open>cdf\<close>: \<open>cumulative t vs xv i\<close> is the part \<open>Yv[0..i]\<close> of the array \<open>Yv\<close> after \<open>i\<close>
  iterations. \<open>Yv.resize(n+1)\<close> sets \<open>Yv[0]\<close> to zero, and iteration \<open>i\<close> sets
  \<open>Yv[i+1] = Yv[i] + y*dx\<close> with \<open>dx = xv[i+1] - xv[i]\<close> and \<open>y = operator()(xv[i], values...)\<close>.
\<close>

primrec cumulative :: "StoredTable \<Rightarrow> real list \<Rightarrow> Array \<Rightarrow> nat \<Rightarrow> Array option" where
  "cumulative t vs xv 0 = Some [0]"
| "cumulative t vs xv (Suc i) =
     (case cumulative t vs xv i of
        None \<Rightarrow> None
      | Some Yv \<Rightarrow>
         (case op_call t (xv ! i # vs) of
            None \<Rightarrow> None
          | Some y \<Rightarrow> Some (Yv @ [last Yv + y * (xv ! Suc i - xv ! i)])))"

text \<open>
  The quotient of two doubles as far as the model follows it: a finite number, or, when
  the divisor is zero, the infinity or NaN of IEEE 754, which is not a real number.
\<close>

datatype dbl = Finite real | NotFinite

definition fdiv :: "real \<Rightarrow> real \<Rightarrow> dbl" where
  "fdiv y d = (if d = 0 then NotFinite else Finite (y / d))"

text \<open>
  The result of \<open>cdf\<close>: the arrays \<open>xv\<close> and \<open>Yv\<close> it constructs and the normalization factor
  it returns. The end of \<open>cdf\<close> is \<open>norm = Yv[n]; Yv /= norm; return norm\<close>.
\<close>

record cdf_result =
  cdf_xv :: Array
  cdf_Yv :: "dbl list"
  cdf_norm :: real

definition cdf :: "StoredTable \<Rightarrow> nat \<Rightarrow> real \<Rightarrow> real \<Rightarrow> real list \<Rightarrow> cdf_result option" where
  "cdf t minBins xmin xmax vs =
     (case cdf_grid t minBins xmin xmax of
        None \<Rightarrow> None
      | Some (n, xs) \<Rightarrow>
         (case cumulative t vs xs n of
            None \<Rightarrow> None
          | Some Ys \<Rightarrow>
              Some \<lparr>cdf_xv = xs, cdf_Yv = map (\<lambda>y. fdiv y (Ys ! n)) Ys, cdf_norm = Ys ! n\<rparr>))"

subsection \<open>Notions used in the statements\<close>

text \<open>
  The tabulated values of the quantity: one value for every combination of grid indices,
  at the multiples of \<open>_qtyStep\<close> from \<open>_qtyBeg\<close>.
\<close>

definition quantity_values :: "StoredTable \<Rightarrow> real list" where
  "quantity_values t =
     map (\<lambda>j. qtyBeg t ! (j * qtyStep t)) [0..<prod_list (map length (axBeg t))]"

text \<open>
  The grid points of every logarithmic axis are positive, so that \<open>log10\<close> of a grid point
  is a number.
\<close>

definition log_axes_positive :: "StoredTable \<Rightarrow> bool" where
  "log_axes_positive t \<longleftrightarrow>
     (\<forall>k < length (axBeg t). axLog t ! k \<longrightarrow> (\<forall>a \<in> set (axBeg t ! k). 0 < a))"

text \<open>
  The list that \<open>terms\<close> returns when every read is inside the value block.
\<close>

definition corner_terms :: "StoredTable \<Rightarrow> (nat \<times> real) list \<Rightarrow> (real \<times> real) list" where
  "corner_terms t pre =
     map (\<lambda>tt. (snd (term_loop tt 1 pre),
                 qtyBeg t ! flattenedIndex t (fst (term_loop tt 1 pre))))
       [0..<2 ^ length pre]"

text \<open>
  The rule of the specification for the choice of the grid in \<open>cdf\<close>, in the words of the
  specification: the internal grid is used when it has at least \<open>minBins\<close> grid points
  strictly inside the open interval from \<open>xmin\<close> to \<open>xmax\<close>. It is compared with
  \<open>cdf_reuses\<close>, the test of the source.
\<close>

definition spec_reuses :: "StoredTable \<Rightarrow> nat \<Rightarrow> real \<Rightarrow> real \<Rightarrow> bool" where
  "spec_reuses t minBins xmin xmax \<longleftrightarrow>
     minBins \<le> length (filter (\<lambda>g. xmin < g \<and> g < xmax) (axBeg t ! 0))"

subsection \<open>The tables of the concrete scenarios\<close>

definition tbl1 :: StoredTable where
  "tbl1 = \<lparr>axBeg = [[1, 2, 4, 8]], qtyBeg = [10, 20, 40, 80], qtyStep = 1,
           axLog = [False], qtyLog = False\<rparr>"

text \<open>
  A table with two axes and two interleaved quantities; the quantity of the table is the
  product of the two coordinates.
\<close>

definition tbl2 :: StoredTable where
  "tbl2 = \<lparr>axBeg = [[1, 2, 4], [10, 20]],
            qtyBeg = [10, 0, 20, 0, 40, 0, 20, 0, 40, 0, 80, 0], qtyStep = 2,
            axLog = [False, False], qtyLog = False\<rparr>"

definition tbl_const :: StoredTable where
  "tbl_const = \<lparr>axBeg = [[1, 2, 4, 8]], qtyBeg = [5, 5, 5, 5], qtyStep = 1,
           axLog = [False], qtyLog = False\<rparr>"

definition tbl_log :: StoredTable where
  "tbl_log = \<lparr>axBeg = [[1, 2, 4, 8]], qtyBeg = [10, 20, 40, 80], qtyStep = 1,
           axLog = [False], qtyLog = True\<rparr>"

definition tbl_log0 :: StoredTable where
  "tbl_log0 = \<lparr>axBeg = [[1, 2, 4, 8]], qtyBeg = [10, 0, 40, 80], qtyStep = 1,
           axLog = [False], qtyLog = True\<rparr>"

definition tbl_zero :: StoredTable where
  "tbl_zero = \<lparr>axBeg = [[1, 2, 4, 8]], qtyBeg = [0, 0, 0, 0], qtyStep = 1,
           axLog = [False], qtyLog = False\<rparr>"

section \<open>Properties of the grid search\<close>

lemma upt_2: "[0..<2] = [0, Suc 0]"
  by (simp add: upt_rec numeral_2_eq_2)

lemma lower_bound_le: "lower_bound g x \<le> length g"
  by (induction g) auto

lemma lower_bound_before: "k < lower_bound g x \<Longrightarrow> g ! k < x"
proof (induction g arbitrary: k)
  case Nil
  then show ?case by simp
next
  case (Cons a g)
  then show ?case by (cases k) (auto split: if_splits)
qed

lemma lower_bound_at: "lower_bound g x < length g \<Longrightarrow> x \<le> g ! lower_bound g x"
  by (induction g) auto

lemma lower_bound_zero: "g \<noteq> [] \<Longrightarrow> x \<le> hd g \<Longrightarrow> lower_bound g x = 0"
  by (cases g) auto

lemma lower_bound_all: "\<forall>a \<in> set g. a < x \<Longrightarrow> lower_bound g x = length g"
  by (induction g) auto

lemma lower_bound_append:
  "\<forall>a \<in> set g. a < x \<Longrightarrow> lower_bound (g @ h) x = length g + lower_bound h x"
  by (induction g) auto

lemma sorted_less_last:
  assumes "sorted_wrt (<) g" "a \<in> set (butlast g)"
  shows "a < last (g::real list)"
proof -
  from assms(2) have ne: "g \<noteq> []" by auto
  then have "g = butlast g @ [last g]" by simp
  then have "sorted_wrt (<) (butlast g @ [last g])" using assms(1) by simp
  then show ?thesis using assms(2) by (simp add: sorted_wrt_append)
qed

lemma lower_bound_last:
  assumes "sorted_wrt (<) g" "g \<noteq> []"
  shows "lower_bound g (last g) = length g - 1"
proof -
  have g: "g = butlast g @ [last g]" using assms(2) by simp
  have "lower_bound (butlast g @ [last g]) (last g) = length (butlast g) + lower_bound [last g] (last g)"
    by (rule lower_bound_append) (use assms(1) in \<open>auto intro: sorted_less_last\<close>)
  then show ?thesis using g by simp
qed

lemma lower_bound_beyond:
  assumes "sorted_wrt (<) g" "g \<noteq> []" "last g < x"
  shows "lower_bound g x = length g"
proof (rule lower_bound_all, rule ballI)
  fix a assume "a \<in> set g"
  then have "a \<in> set (butlast g) \<or> a = last g"
    using assms(2) by (metis append_butlast_last_id insert_iff list.set(2) rotate1.simps(2) set_rotate1 in_set_butlast_appendI)
  then show "a < x" using sorted_less_last[OF assms(1)] assms(3) by force
qed

subsection \<open>One axis: the bin and the fraction\<close>

lemma axis_frac_Some:
  "0 < r \<Longrightarrow> r < length g \<Longrightarrow>
     axis_frac g lg r x = Some (r, bin_frac lg x (g ! (r - 1)) (g ! r))"
  by (simp add: axis_frac_def rd_def bin_frac_def)

lemma axis_bin_cases:
  assumes "2 \<le> length g"
  shows "axis_bin g lg x =
     (if lower_bound g x = 0 then Some (1, bin_frac lg (g ! 0) (g ! 0) (g ! 1))
      else if lower_bound g x = length g
        then Some (length g - 1, bin_frac lg (g ! (length g - 1)) (g ! (length g - 2)) (g ! (length g - 1)))
      else Some (lower_bound g x, bin_frac lg x (g ! (lower_bound g x - 1)) (g ! lower_bound g x)))"
proof -
  have le: "lower_bound g x \<le> length g" by (rule lower_bound_le)
  have ne: "g \<noteq> []" "length g \<noteq> 0" using assms by auto
  have a: "axis_frac g lg 1 y = Some (1, bin_frac lg y (g ! 0) (g ! 1))" for y
    using axis_frac_Some[of 1 g lg y] assms by simp
  have b: "axis_frac g lg (length g - 1) y
      = Some (length g - 1, bin_frac lg y (g ! (length g - 2)) (g ! (length g - 1)))" for y
    using axis_frac_Some[of "length g - 1" g lg y] assms
    by (simp add: numeral_2_eq_2 Suc_diff_Suc)
  have d: "rd g 0 = Some (g ! 0)" "rd g (length g - 1) = Some (g ! (length g - 1))"
    using assms by (auto simp: rd_def)
  consider "lower_bound g x = 0" | "lower_bound g x = length g"
    | "lower_bound g x \<noteq> 0" "lower_bound g x \<noteq> length g" by blast
  then show ?thesis
  proof cases
    case 1
    have "axis_bin g lg x = axis_frac g lg 1 (g ! 0)"
      unfolding axis_bin_def Let_def 1 d by simp
    then show ?thesis using 1 a by simp
  next
    case 2
    have "axis_bin g lg x = axis_frac g lg (length g - 1) (g ! (length g - 1))"
      unfolding axis_bin_def Let_def 2 d using ne by simp
    then show ?thesis using 2 b ne by simp
  next
    case 3
    have "axis_bin g lg x = axis_frac g lg (lower_bound g x) x"
      unfolding axis_bin_def Let_def using 3 by simp
    moreover have "axis_frac g lg (lower_bound g x) x
      = Some (lower_bound g x, bin_frac lg x (g ! (lower_bound g x - 1)) (g ! lower_bound g x))"
      using axis_frac_Some[of "lower_bound g x" g lg x] le 3 by simp
    ultimately show ?thesis using 3 by simp
  qed
qed

lemma axis_bin_total:
  assumes "2 \<le> length g"
  shows "\<exists>r f. axis_bin g lg x = Some (r, f) \<and> 1 \<le> r \<and> r \<le> length g - 1"
proof -
  have le: "lower_bound g x \<le> length g" by (rule lower_bound_le)
  show ?thesis unfolding axis_bin_cases[OF assms] using assms le by auto
qed

lemma axis_bin_below:
  assumes "g \<noteq> []" "x \<le> hd g"
  shows "axis_bin g lg x = axis_bin g lg (hd g)"
  using assms by (simp add: axis_bin_def lower_bound_zero)

lemma axis_bin_above:
  assumes "sorted_wrt (<) g" "2 \<le> length g" "last g < x"
  shows "axis_bin g lg x = axis_bin g lg (last g)"
proof -
  have ne: "g \<noteq> []" using assms(2) by auto
  have 1: "lower_bound g x = length g" by (rule lower_bound_beyond[OF assms(1) ne assms(3)])
  have 2: "lower_bound g (last g) = length g - 1" by (rule lower_bound_last[OF assms(1) ne])
  have 3: "length g - 1 \<noteq> 0" "length g - 1 \<noteq> length g" "length g - 1 - 1 = length g - 2"
    using assms(2) by auto
  have l: "last g = g ! (length g - 1)" using ne by (rule last_conv_nth)
  have "axis_bin g lg x
      = Some (length g - 1, bin_frac lg (g ! (length g - 1)) (g ! (length g - 2)) (g ! (length g - 1)))"
    unfolding axis_bin_cases[OF assms(2)] using ne by (simp add: 1)
  moreover have "axis_bin g lg (last g)
      = Some (length g - 1, bin_frac lg (last g) (g ! (length g - 2)) (g ! (length g - 1)))"
    unfolding axis_bin_cases[OF assms(2)] 2 using 3 by simp
  ultimately show ?thesis by (simp add: l)
qed

subsection \<open>Sequencing reads\<close>

lemma those_map_Some:
  "those (map Some ys) = Some ys"
  by (induction ys) auto

lemma those_eq_Some:
  "those xs = Some ys \<longleftrightarrow> xs = map Some ys"
proof (induction xs arbitrary: ys)
  case Nil
  then show ?case by auto
next
  case (Cons a xs)
  then show ?case by (cases a; cases ys) (auto split: option.splits)
qed

lemma those_map_eq_Some:
  "those (map f xs) = Some ys \<longleftrightarrow> length ys = length xs \<and> (\<forall>i < length xs. f (xs ! i) = Some (ys ! i))"
  unfolding those_eq_Some by (auto simp: list_eq_iff_nth_eq)

lemma those_map_total:
  assumes "\<And>x. x \<in> set xs \<Longrightarrow> \<exists>y. f x = Some y"
  shows "\<exists>ys. those (map f xs) = Some ys"
proof -
  have "map f xs = map Some (map (\<lambda>x. the (f x)) xs)"
    using assms by (induction xs) auto
  then show ?thesis using those_eq_Some by blast
qed

lemma precompute_Some_iff:
  "precompute t vals = Some pre \<longleftrightarrow>
     length pre = length (axBeg t) \<and>
     (\<forall>k < length (axBeg t). axis_bin (axBeg t ! k) (axLog t ! k) (vals ! k) = Some (pre ! k))"
  unfolding precompute_def those_map_eq_Some by simp

lemma precompute_total:
  assumes "opened t"
  shows "\<exists>pre. precompute t vals = Some pre"
  unfolding precompute_def
proof (rule those_map_total)
  fix k assume "k \<in> set [0..<length (axBeg t)]"
  then have "axBeg t ! k \<in> set (axBeg t)" by simp
  then have "2 \<le> length (axBeg t ! k)" using assms by (simp add: opened_def)
  from axis_bin_total[OF this]
  show "\<exists>y. axis_bin (axBeg t ! k) (axLog t ! k) (vals ! k) = Some y" by blast
qed

lemma precompute_bounds:
  assumes "opened t" "precompute t vals = Some pre" "k < length (axBeg t)"
  shows "1 \<le> fst (pre ! k) \<and> fst (pre ! k) \<le> axLen t k - 1"
proof -
  have "axBeg t ! k \<in> set (axBeg t)" using assms(3) by simp
  then have "2 \<le> length (axBeg t ! k)" using assms(1) by (simp add: opened_def)
  from axis_bin_total[OF this, of "axLog t ! k" "vals ! k"]
  obtain r f where "axis_bin (axBeg t ! k) (axLog t ! k) (vals ! k) = Some (r, f)"
    "1 \<le> r" "r \<le> length (axBeg t ! k) - 1" by blast
  moreover have "axis_bin (axBeg t ! k) (axLog t ! k) (vals ! k) = Some (pre ! k)"
    using assms(2,3) by (simp add: precompute_Some_iff)
  ultimately show ?thesis by (auto simp: axLen_def)
qed

subsection \<open>The flattened index\<close>

lemma flat_bound:
  assumes "length is = length ls" "is \<noteq> []" "\<forall>k < length is. is ! k < ls ! k"
  shows "flat ls is < prod_list ls"
  using assms
proof (induction "is" arbitrary: ls)
  case Nil
  then show ?case by simp
next
  case (Cons i js)
  then obtain l ls' where ls: "ls = l # ls'" by (cases ls) auto
  have i: "i < l" using Cons.prems(3) ls by force
  show ?case
  proof (cases js)
    case Nil
    then show ?thesis using Cons.prems(1) i ls by simp
  next
    case (Cons j js')
    have "\<forall>k < length js. js ! k < ls' ! k"
      using Cons.prems(3) ls by (metis length_Cons nth_Cons_Suc Suc_less_eq)
    then have ih: "flat ls' js < prod_list ls'"
      using Cons.IH[of ls'] Cons.prems(1) ls Cons by simp
    have "flat ls' js * l + i < (flat ls' js + 1) * l" using i by simp
    also have "\<dots> \<le> prod_list ls' * l" using ih by (intro mult_le_mono1) simp
    finally show ?thesis by (simp add: mult.commute ls Cons)
  qed
qed

subsection \<open>The terms of the interpolation\<close>

lemma term_loop_length: "length (fst (term_loop tt fr pre)) = length pre"
  by (induction pre arbitrary: tt fr) (auto simp: Let_def)

lemma term_loop_nth:
  "k < length pre \<Longrightarrow>
   fst (term_loop tt fr pre) ! k = fst (pre ! k) - (tt div 2 ^ k) mod 2"
proof (induction pre arbitrary: tt fr k)
  case Nil
  then show ?case by simp
next
  case (Cons p pre)
  obtain i2 f where p: "p = (i2, f)" by (cases p)
  show ?case
  proof (cases k)
    case 0
    then show ?thesis by (simp add: p Let_def)
  next
    case (Suc k')
    then have "k' < length pre" using Cons.prems by simp
    from Cons.IH[OF this] show ?thesis
      by (simp add: p Let_def Suc div_mult2_eq)
  qed
qed

lemma term_loop_index_lt:
  assumes "opened t" "precompute t vals = Some pre" "k < length (axBeg t)"
  shows "fst (term_loop tt fr pre) ! k < axLen t k"
proof -
  have len: "length pre = length (axBeg t)" using assms(2) by (simp add: precompute_Some_iff)
  have b: "1 \<le> fst (pre ! k) \<and> fst (pre ! k) \<le> axLen t k - 1"
    by (rule precompute_bounds[OF assms])
  have "fst (term_loop tt fr pre) ! k = fst (pre ! k) - (tt div 2 ^ k) mod 2"
    using term_loop_nth[of k pre tt fr] assms(3) len by simp
  then show ?thesis using b by linarith
qed

lemma flattenedIndex_in_block:
  assumes "opened t" "precompute t vals = Some pre"
  shows "flattenedIndex t (fst (term_loop tt fr pre)) < length (qtyBeg t)"
proof -
  let ?is = "fst (term_loop tt fr pre)"
  let ?ls = "map length (axBeg t)"
  have len: "length pre = length (axBeg t)" using assms(2) by (simp add: precompute_Some_iff)
  have N: "1 \<le> length (axBeg t)" using assms(1) by (simp add: opened_def)
  have l: "length ?is = length ?ls" by (simp add: term_loop_length len)
  have ne: "?is \<noteq> []" using l N by auto
  have "\<forall>k < length ?is. ?is ! k < ?ls ! k"
    using term_loop_index_lt[OF assms] l by (simp add: axLen_def)
  from flat_bound[OF l ne this] have "flat ?ls ?is \<le> prod_list ?ls - 1" by simp
  then have "flat ?ls ?is * qtyStep t \<le> (prod_list ?ls - 1) * qtyStep t"
    by (rule mult_le_mono1)
  also have "\<dots> < length (qtyBeg t)" using assms(1) by (simp add: opened_def)
  finally show ?thesis by (simp add: flattenedIndex_def)
qed

lemma terms_Some_iff:
  "terms t pre = Some tys \<longleftrightarrow>
     length tys = 2 ^ length pre \<and>
     (\<forall>tt < 2 ^ length pre.
        map_option (Pair (snd (term_loop tt 1 pre))) (valueAtIndices t (fst (term_loop tt 1 pre)))
          = Some (tys ! tt))"
  unfolding terms_def those_map_eq_Some by simp

lemma terms_total:
  assumes "opened t" "precompute t vals = Some pre"
  shows "terms t pre =
     Some (map (\<lambda>tt. (snd (term_loop tt 1 pre),
                       qtyBeg t ! flattenedIndex t (fst (term_loop tt 1 pre))))
             [0..<2 ^ length pre])"
  unfolding terms_Some_iff
  using flattenedIndex_in_block[OF assms] by (simp add: valueAtIndices_def rd_def)

lemma op_call_total:
  assumes "opened t"
  shows "\<exists>y. op_call t vals = Some y"
proof -
  obtain pre where p: "precompute t vals = Some pre" using precompute_total[OF assms] by blast
  show ?thesis by (simp add: op_call_def p terms_total[OF assms p])
qed

lemma precompute_cong:
  assumes "\<And>k. k < length (axBeg t) \<Longrightarrow>
     axis_bin (axBeg t ! k) (axLog t ! k) (vals ! k) = axis_bin (axBeg t ! k) (axLog t ! k) (vals' ! k)"
  shows "precompute t vals = precompute t vals'"
  unfolding precompute_def using assms by (intro arg_cong[where f = those] map_cong) auto

lemma op_call_cong:
  "precompute t vals = precompute t vals' \<Longrightarrow> op_call t vals = op_call t vals'"
  by (simp add: op_call_def)

subsection \<open>The front factors and the sum\<close>

lemma sum_even_odd:
  fixes g :: "nat \<Rightarrow> real"
  shows "(\<Sum>tt<2 * M. g tt) = (\<Sum>m<M. g (2 * m) + g (2 * m + 1))"
  by (induction M) simp_all

lemma term_loop_front_sum:
  "(\<Sum>tt<2 ^ length pre. snd (term_loop tt fr pre)) = fr"
proof (induction pre arbitrary: fr)
  case Nil
  then show ?case by simp
next
  case (Cons p pre)
  obtain i2 f where p: "p = (i2, f)" by (cases p)
  have "(\<Sum>tt<2 ^ length (p # pre). snd (term_loop tt fr (p # pre)))
      = (\<Sum>tt<2 * 2 ^ length pre. snd (term_loop tt fr (p # pre)))" by simp
  also have "\<dots> = (\<Sum>m<2 ^ length pre. snd (term_loop (2 * m) fr (p # pre))
                                       + snd (term_loop (2 * m + 1) fr (p # pre)))"
    by (rule sum_even_odd)
  also have "\<dots> = (\<Sum>m<2 ^ length pre. snd (term_loop m (fr * f) pre)
                                       + snd (term_loop m (fr * (1 - f)) pre))"
    by (simp add: p Let_def)
  also have "\<dots> = fr * f + fr * (1 - f)"
    by (simp add: sum.distrib Cons.IH)
  also have "\<dots> = fr" by (simp add: algebra_simps)
  finally show ?case .
qed

lemma term_loop_front_prod:
  "snd (term_loop tt fr pre) =
     fr * (\<Prod>k<length pre. if (tt div 2 ^ k) mod 2 \<noteq> 0 then 1 - snd (pre ! k) else snd (pre ! k))"
proof (induction pre arbitrary: tt fr)
  case Nil
  then show ?case by simp
next
  case (Cons p pre)
  obtain i2 f where p: "p = (i2, f)" by (cases p)
  show ?case
    by (simp add: p Let_def Cons.IH prod.lessThan_Suc_shift div_mult2_eq mult.assoc
        del: prod.lessThan_Suc cong: if_cong)
qed

lemma foldl_plus_sum_list:
  fixes h :: "'a \<Rightarrow> real"
  shows "foldl (\<lambda>y ty. y + h ty) a tys = a + sum_list (map h tys)"
  by (induction tys arbitrary: a) simp_all

lemma interpolate_linear:
  "\<not> (qlog \<and> (\<forall>ty \<in> set tys. 0 < snd ty)) \<Longrightarrow>
     interpolate qlog tys = (\<Sum>ty\<leftarrow>tys. fst ty * snd ty)"
  by (auto simp: interpolate_def foldl_plus_sum_list not_le)

lemma interpolate_log:
  "qlog \<Longrightarrow> \<forall>ty \<in> set tys. 0 < snd ty \<Longrightarrow>
     interpolate qlog tys = 10 powr (\<Sum>ty\<leftarrow>tys. fst ty * log 10 (snd ty))"
  by (auto simp: interpolate_def foldl_plus_sum_list not_le)

lemma terms_fronts:
  assumes "terms t pre = Some tys"
  shows "map fst tys = map (\<lambda>tt. snd (term_loop tt 1 pre)) [0..<2 ^ length pre]"
proof (rule nth_equalityI)
  show "length (map fst tys) = length (map (\<lambda>tt. snd (term_loop tt 1 pre)) [0..<2 ^ length pre])"
    using assms by (simp add: terms_Some_iff)
next
  fix i assume "i < length (map fst tys)"
  then have i: "i < 2 ^ length pre" using assms by (simp add: terms_Some_iff)
  then have "map_option (Pair (snd (term_loop i 1 pre))) (valueAtIndices t (fst (term_loop i 1 pre)))
          = Some (tys ! i)" using assms by (simp add: terms_Some_iff)
  then have "fst (tys ! i) = snd (term_loop i 1 pre)" by (metis fst_conv map_option_eq_Some)
  then show "map fst tys ! i = map (\<lambda>tt. snd (term_loop tt 1 pre)) [0..<2 ^ length pre] ! i"
    using i assms by (simp add: terms_Some_iff)
qed

lemma terms_fronts_sum:
  assumes "terms t pre = Some tys"
  shows "sum_list (map fst tys) = 1"
proof -
  have "sum_list (map fst tys) = (\<Sum>tt\<leftarrow>[0..<2 ^ length pre]. snd (term_loop tt 1 pre))"
    by (simp add: terms_fronts[OF assms])
  also have "\<dots> = (\<Sum>tt<2 ^ length pre. snd (term_loop tt 1 pre))"
    by (simp add: interv_sum_list_conv_sum_set_nat atLeast0LessThan)
  finally show ?thesis by (simp add: term_loop_front_sum)
qed

subsection \<open>The three cases of the grid search on one axis\<close>

lemma axis_bin_lo:
  assumes "2 \<le> length g" "lower_bound g x = 0"
  shows "axis_bin g lg x = Some (1, bin_frac lg (g ! 0) (g ! 0) (g ! 1))"
  unfolding axis_bin_cases[OF assms(1)] using assms(2) by simp

lemma axis_bin_hi:
  assumes "2 \<le> length g" "lower_bound g x = length g"
  shows "axis_bin g lg x = Some (length g - 1,
           bin_frac lg (g ! (length g - 1)) (g ! (length g - 2)) (g ! (length g - 1)))"
proof -
  have "lower_bound g x \<noteq> 0" using assms by auto
  then show ?thesis unfolding axis_bin_cases[OF assms(1)] using assms(2) by simp
qed

lemma axis_bin_mid:
  assumes "2 \<le> length g" "lower_bound g x \<noteq> 0" "lower_bound g x \<noteq> length g"
  shows "axis_bin g lg x = Some (lower_bound g x,
           bin_frac lg x (g ! (lower_bound g x - 1)) (g ! lower_bound g x))"
  unfolding axis_bin_cases[OF assms(1)] using assms(2,3) by simp

subsection \<open>Fractions and front factors between zero and one\<close>

lemma frac_range:
  assumes "x1 < x2" "x1 \<le> x" "x \<le> x2" "lg \<longrightarrow> 0 < x1"
  shows "0 \<le> bin_frac lg x x1 x2 \<and> bin_frac lg x x1 x2 \<le> 1"
proof (cases lg)
  case True
  then have p: "0 < x1" "0 < x" "0 < x2" using assms by auto
  have "log 10 x1 < log 10 x2" "log 10 x1 \<le> log 10 x" "log 10 x \<le> log 10 x2"
    using assms(1-3) p by simp_all
  then show ?thesis using True by (simp add: bin_frac_def)
next
  case False
  then show ?thesis using assms by (simp add: bin_frac_def)
qed

lemma axis_bin_frac_range:
  assumes "sorted_wrt (<) g" "2 \<le> length g" "lg \<longrightarrow> (\<forall>a \<in> set g. 0 < a)"
    "axis_bin g lg x = Some (r, f)"
  shows "0 \<le> f \<and> f \<le> 1"
proof -
  let ?r0 = "lower_bound g x"
  have le: "?r0 \<le> length g" by (rule lower_bound_le)
  have pos: "i < length g \<longrightarrow> lg \<longrightarrow> 0 < g ! i" for i using assms(3) by auto
  consider "?r0 = 0" | "?r0 = length g" | "?r0 \<noteq> 0" "?r0 \<noteq> length g" by blast
  then show ?thesis
  proof cases
    case 1
    then have f: "f = bin_frac lg (g ! 0) (g ! 0) (g ! 1)"
      using assms(4) axis_bin_lo[OF assms(2), of x lg] by auto
    have "g ! 0 < g ! 1" using assms(1,2) by (simp add: sorted_wrt_iff_nth_less)
    moreover have "lg \<longrightarrow> 0 < g ! 0" using pos[of 0] assms(2) by auto
    ultimately show ?thesis unfolding f by (intro frac_range) auto
  next
    case 2
    then have f: "f = bin_frac lg (g ! (length g - 1)) (g ! (length g - 2)) (g ! (length g - 1))"
      using assms(4) axis_bin_hi[OF assms(2), of x lg] by auto
    have "g ! (length g - 2) < g ! (length g - 1)"
      using assms(1,2) by (simp add: sorted_wrt_iff_nth_less)
    moreover have "lg \<longrightarrow> 0 < g ! (length g - 2)" using pos[of "length g - 2"] assms(2) by auto
    ultimately show ?thesis unfolding f by (intro frac_range) auto
  next
    case 3
    then have f: "f = bin_frac lg x (g ! (?r0 - 1)) (g ! ?r0)"
      using assms(4) axis_bin_mid[OF assms(2), of x lg] by auto
    have a: "g ! (?r0 - 1) < x" using 3 by (intro lower_bound_before) simp
    have b: "x \<le> g ! ?r0" using 3 le by (intro lower_bound_at) simp
    have c: "lg \<longrightarrow> 0 < g ! (?r0 - 1)" using pos[of "?r0 - 1"] 3 le by auto
    show ?thesis unfolding f using a b c by (intro frac_range) auto
  qed
qed

lemma term_loop_front_nonneg:
  assumes "0 \<le> fr" "\<forall>p \<in> set pre. 0 \<le> snd p \<and> snd p \<le> 1"
  shows "0 \<le> snd (term_loop tt fr pre)"
  using assms
proof (induction pre arbitrary: tt fr)
  case Nil
  then show ?case by simp
next
  case (Cons p pre)
  obtain i2 f where p: "p = (i2, f)" by (cases p)
  have f: "0 \<le> f" "f \<le> 1" using Cons.prems(2) p by auto
  have "0 \<le> fr * (if tt mod 2 \<noteq> 0 then 1 - f else f)" using Cons.prems(1) f by simp
  from Cons.IH[OF this] Cons.prems(2) show ?case by (simp add: p Let_def)
qed

lemma precompute_frac_range:
  assumes "opened t" "log_axes_positive t" "precompute t vals = Some pre"
  shows "\<forall>p \<in> set pre. 0 \<le> snd p \<and> snd p \<le> 1"
proof
  fix p assume "p \<in> set pre"
  then obtain k where k: "k < length pre" "p = pre ! k" by (auto simp: in_set_conv_nth)
  have len: "length pre = length (axBeg t)" using assms(3) by (simp add: precompute_Some_iff)
  have mem: "axBeg t ! k \<in> set (axBeg t)" using k len by simp
  have g: "2 \<le> length (axBeg t ! k)" "sorted_wrt (<) (axBeg t ! k)"
    using mem assms(1) by (simp_all add: opened_def)
  have lp: "axLog t ! k \<longrightarrow> (\<forall>a \<in> set (axBeg t ! k). 0 < a)"
    using assms(2) k len by (simp add: log_axes_positive_def)
  have "axis_bin (axBeg t ! k) (axLog t ! k) (vals ! k) = Some (fst p, snd p)"
    using assms(3) k len by (simp add: precompute_Some_iff)
  from axis_bin_frac_range[OF g(2) g(1) lp this] show "0 \<le> snd p \<and> snd p \<le> 1" .
qed

subsection \<open>The corner values\<close>

lemma corner_in_quantity_values:
  assumes "opened t" "precompute t vals = Some pre"
  shows "qtyBeg t ! flattenedIndex t (fst (term_loop tt fr pre)) \<in> set (quantity_values t)"
proof -
  let ?is = "fst (term_loop tt fr pre)"
  let ?ls = "map length (axBeg t)"
  have len: "length pre = length (axBeg t)" using assms(2) by (simp add: precompute_Some_iff)
  have N: "1 \<le> length (axBeg t)" using assms(1) by (simp add: opened_def)
  have l: "length ?is = length ?ls" by (simp add: term_loop_length len)
  have ne: "?is \<noteq> []" using l N by auto
  have "\<forall>k < length ?is. ?is ! k < ?ls ! k"
    using term_loop_index_lt[OF assms] l by (simp add: axLen_def)
  from flat_bound[OF l ne this] have "flat ?ls ?is \<in> set [0..<prod_list ?ls]" by simp
  then show ?thesis unfolding quantity_values_def flattenedIndex_def by (intro image_eqI[where x = "flat ?ls ?is"] | simp)+
qed

lemma terms_corner_terms:
  assumes "opened t" "precompute t vals = Some pre"
  shows "terms t pre = Some (corner_terms t pre)"
  unfolding corner_terms_def by (rule terms_total[OF assms])

lemma op_call_corner_terms:
  assumes "opened t" "precompute t vals = Some pre"
  shows "op_call t vals = Some (interpolate (qtyLog t) (corner_terms t pre))"
  by (simp add: op_call_def assms(2) terms_corner_terms[OF assms])

lemma corner_terms_value:
  assumes "opened t" "precompute t vals = Some pre" "ty \<in> set (corner_terms t pre)"
  shows "snd ty \<in> set (quantity_values t)"
proof -
  from assms(3) obtain tt where "ty = (snd (term_loop tt 1 pre),
                       qtyBeg t ! flattenedIndex t (fst (term_loop tt 1 pre)))"
    unfolding corner_terms_def by auto
  then show ?thesis using corner_in_quantity_values[OF assms(1,2), of tt 1] by simp
qed

lemma corner_terms_front_nonneg:
  assumes "\<forall>p \<in> set pre. 0 \<le> snd p \<and> snd p \<le> 1" "ty \<in> set (corner_terms t pre)"
  shows "0 \<le> fst ty"
proof -
  from assms(2) obtain tt where "ty = (snd (term_loop tt 1 pre),
                       qtyBeg t ! flattenedIndex t (fst (term_loop tt 1 pre)))"
    unfolding corner_terms_def by auto
  moreover have "0 \<le> snd (term_loop tt 1 pre)"
    by (rule term_loop_front_nonneg[OF _ assms(1)]) simp
  ultimately show ?thesis by simp
qed

lemma op_call_nonneg:
  assumes "opened t" "log_axes_positive t" "\<forall>v \<in> set (quantity_values t). 0 \<le> v"
    "op_call t vals = Some y"
  shows "0 \<le> y"
proof -
  obtain pre where p: "precompute t vals = Some pre" using precompute_total[OF assms(1)] by blast
  let ?tys = "corner_terms t pre"
  have y: "y = interpolate (qtyLog t) ?tys"
    using assms(4) op_call_corner_terms[OF assms(1) p] by simp
  have fr: "\<forall>p \<in> set pre. 0 \<le> snd p \<and> snd p \<le> 1"
    by (rule precompute_frac_range[OF assms(1,2) p])
  have "0 \<le> fst ty * snd ty" if "ty \<in> set ?tys" for ty
  proof -
    have "0 \<le> fst ty" by (rule corner_terms_front_nonneg[OF fr that])
    moreover have "0 \<le> snd ty" using corner_terms_value[OF assms(1) p that] assms(3) by blast
    ultimately show ?thesis by simp
  qed
  then have lin: "0 \<le> (\<Sum>ty\<leftarrow>?tys. fst ty * snd ty)"
    by (intro sum_list_nonneg) auto
  show ?thesis
  proof (cases "qtyLog t \<and> (\<forall>ty \<in> set ?tys. 0 < snd ty)")
    case True
    then show ?thesis unfolding y using interpolate_log[of "qtyLog t" ?tys] by simp
  next
    case False
    then show ?thesis unfolding y using interpolate_linear[OF False] lin by simp
  qed
qed

lemma op_call_constant:
  assumes "precompute t vals = Some pre" "terms t pre = Some tys"
    "\<forall>ty \<in> set tys. snd ty = c" "\<not> (qtyLog t \<and> 0 < c)"
  shows "op_call t vals = Some c"
proof -
  have "length tys = 2 ^ length pre" using assms(2) by (simp add: terms_Some_iff)
  then have "tys \<noteq> []" by auto
  then obtain ty where ty: "ty \<in> set tys" by (cases tys) auto
  then have "snd ty = c" using assms(3) by blast
  then have "\<not> (qtyLog t \<and> (\<forall>ty \<in> set tys. 0 < snd ty))" using ty assms(4) by blast
  then have "interpolate (qtyLog t) tys = (\<Sum>ty\<leftarrow>tys. fst ty * snd ty)"
    by (rule interpolate_linear)
  also have "\<dots> = (\<Sum>ty\<leftarrow>tys. fst ty * c)"
    using assms(3) by (intro arg_cong[where f = sum_list] map_cong) auto
  also have "\<dots> = sum_list (map fst tys) * c"
    by (simp add: sum_list_mult_const)
  also have "\<dots> = c" by (simp add: terms_fronts_sum[OF assms(2)])
  finally show ?thesis by (simp add: op_call_def assms(1,2))
qed

lemma op_call_zero_table:
  assumes "opened t" "\<forall>v \<in> set (quantity_values t). v = 0"
  shows "op_call t vals = Some 0"
proof -
  obtain pre where p: "precompute t vals = Some pre" using precompute_total[OF assms(1)] by blast
  have "\<forall>ty \<in> set (corner_terms t pre). snd ty = 0"
    using corner_terms_value[OF assms(1) p] assms(2) by blast
  from op_call_constant[OF p terms_corner_terms[OF assms(1) p] this] show ?thesis by simp
qed

subsection \<open>Grid points in a half-open interval\<close>

lemma sorted_take_drop_filter:
  assumes "sorted g"
  shows "take (lower_bound g x) g = filter (\<lambda>a. a < x) g \<and>
         drop (lower_bound g x) g = filter (\<lambda>a. x \<le> a) g"
  using assms
proof (induction g)
  case Nil
  then show ?case by simp
next
  case (Cons a g)
  show ?case
  proof (cases "a < x")
    case True
    then show ?thesis using Cons by simp
  next
    case False
    then have "\<forall>b \<in> set (a # g). x \<le> b" using Cons.prems by auto
    then have "filter (\<lambda>a. a < x) (a # g) = []" "filter (\<lambda>a. x \<le> a) (a # g) = a # g"
      by (auto simp: filter_empty_conv not_less)
    then show ?thesis using False by simp
  qed
qed

lemma lower_bound_length_filter:
  assumes "sorted g"
  shows "lower_bound g x = length (filter (\<lambda>a. a < x) g)"
proof -
  have "length (take (lower_bound g x) g) = lower_bound g x"
    using lower_bound_le[of g x] by simp
  then show ?thesis using sorted_take_drop_filter[OF assms, of x] by simp
qed

lemma inside_count:
  assumes "sorted g"
  shows "length (filter (\<lambda>a. xmin \<le> a \<and> a < xmax) g) = lower_bound g xmax - lower_bound g xmin"
proof (cases "xmin \<le> xmax")
  case True
  have "length (filter (\<lambda>a. a < xmax) g)
      = length (filter (\<lambda>a. a < xmin) (filter (\<lambda>a. a < xmax) g))
        + length (filter (\<lambda>a. \<not> a < xmin) (filter (\<lambda>a. a < xmax) g))"
    using sum_length_filter_compl[of "\<lambda>a. a < xmin" "filter (\<lambda>a. a < xmax) g"] by simp
  moreover have "filter (\<lambda>a. a < xmin) (filter (\<lambda>a. a < xmax) g) = filter (\<lambda>a. a < xmin) g"
    using True by (auto intro: filter_cong)
  moreover have "filter (\<lambda>a. \<not> a < xmin) (filter (\<lambda>a. a < xmax) g)
      = filter (\<lambda>a. xmin \<le> a \<and> a < xmax) g"
    by (auto intro: filter_cong)
  ultimately show ?thesis by (simp add: lower_bound_length_filter[OF assms])
next
  case False
  then have "filter (\<lambda>a. xmin \<le> a \<and> a < xmax) g = []"
    by (auto simp: filter_empty_conv)
  moreover have "length (filter (\<lambda>a. a < xmax) g) \<le> length (filter (\<lambda>a. a < xmin) g)"
  proof -
    have "filter (\<lambda>a. a < xmax) g = filter (\<lambda>a. a < xmax) (filter (\<lambda>a. a < xmin) g)"
      using False by (auto intro: filter_cong)
    then show ?thesis by (metis length_filter_le)
  qed
  ultimately show ?thesis by (simp add: lower_bound_length_filter[OF assms])
qed

lemma inside_slice:
  assumes "sorted g"
  shows "take (lower_bound g xmax - lower_bound g xmin) (drop (lower_bound g xmin) g)
       = filter (\<lambda>a. xmin \<le> a \<and> a < xmax) g"
proof -
  let ?h = "filter (\<lambda>a. xmin \<le> a) g"
  have h: "drop (lower_bound g xmin) g = ?h" using sorted_take_drop_filter[OF assms] by simp
  have sh: "sorted ?h" using assms by (simp add: sorted_wrt_filter)
  have i: "filter (\<lambda>a. a < xmax) ?h = filter (\<lambda>a. xmin \<le> a \<and> a < xmax) g"
    by (auto intro: filter_cong)
  have "lower_bound ?h xmax = length (filter (\<lambda>a. xmin \<le> a \<and> a < xmax) g)"
    using lower_bound_length_filter[OF sh, of xmax] i by simp
  then have "lower_bound ?h xmax = lower_bound g xmax - lower_bound g xmin"
    by (simp add: inside_count[OF assms])
  then show ?thesis using sorted_take_drop_filter[OF sh, of xmax] h i by simp
qed

subsection \<open>The grid of \<open>cdf\<close>\<close>

lemma cdf_reuses_nowrap:
  assumes "lower_bound (axBeg t ! 0) xmin + max 1 minBins < size_max"
  shows "cdf_reuses t minBins xmin xmax \<longleftrightarrow>
           lower_bound (axBeg t ! 0) xmin + max 1 minBins \<le> lower_bound (axBeg t ! 0) xmax"
  using assms by (simp add: cdf_reuses_def)

lemma length_buildLinearGrid: "length (buildLinearGrid xmin xmax n) = n + 1"
  by (simp add: buildLinearGrid_def)

lemma length_buildLogGrid: "length (buildLogGrid xmin xmax n) = n + 1"
  by (simp add: buildLogGrid_def)

lemma cdf_grid_cases:
  assumes "lower_bound (axBeg t ! 0) xmin + max 1 minBins < size_max"
  shows "cdf_grid t minBins xmin xmax =
     Some (if cdf_reuses t minBins xmin xmax
           then (1 + lower_bound (axBeg t ! 0) xmax - lower_bound (axBeg t ! 0) xmin,
                 xmin # take (lower_bound (axBeg t ! 0) xmax - lower_bound (axBeg t ! 0) xmin)
                          (drop (lower_bound (axBeg t ! 0) xmin) (axBeg t ! 0)) @ [xmax])
           else (max 1 minBins,
                 if axLog t ! 0 then buildLogGrid xmin xmax (max 1 minBins)
                 else buildLinearGrid xmin xmax (max 1 minBins)))"
proof (cases "cdf_reuses t minBins xmin xmax")
  case True
  then have "\<not> lower_bound (axBeg t ! 0) xmax < lower_bound (axBeg t ! 0) xmin"
    using cdf_reuses_nowrap[OF assms] by simp
  then show ?thesis using True by (simp add: cdf_grid_def Let_def)
next
  case False
  then show ?thesis by (simp add: cdf_grid_def Let_def)
qed

lemma cdf_grid_total:
  assumes "lower_bound (axBeg t ! 0) xmin + max 1 minBins < size_max"
  shows "\<exists>n xs. cdf_grid t minBins xmin xmax = Some (n, xs) \<and> length xs = n + 1 \<and> 1 \<le> n"
proof (cases "cdf_reuses t minBins xmin xmax")
  case True
  let ?a = "lower_bound (axBeg t ! 0) xmin" and ?b = "lower_bound (axBeg t ! 0) xmax"
  have ab: "?a < ?b" using True cdf_reuses_nowrap[OF assms] by simp
  have "?b \<le> length (axBeg t ! 0)" by (rule lower_bound_le)
  then have "length (take (?b - ?a) (drop ?a (axBeg t ! 0))) = ?b - ?a" by simp
  moreover have "1 + ?b - ?a = (?b - ?a) + 1" "1 \<le> (?b - ?a) + 1" using ab by simp_all
  ultimately show ?thesis using True by (simp add: cdf_grid_cases[OF assms])
next
  case False
  then show ?thesis
    by (simp add: cdf_grid_cases[OF assms] length_buildLinearGrid length_buildLogGrid)
qed

lemma cdf_reuses_inside:
  assumes "sorted_wrt (<) (axBeg t ! 0)" "lower_bound (axBeg t ! 0) xmin + max 1 minBins < size_max"
  shows "cdf_reuses t minBins xmin xmax \<longleftrightarrow>
            max 1 minBins \<le> length (filter (\<lambda>g. xmin \<le> g \<and> g < xmax) (axBeg t ! 0))"
proof -
  have s: "sorted (axBeg t ! 0)" using assms(1) by (rule strict_sorted_imp_sorted)
  show ?thesis unfolding cdf_reuses_nowrap[OF assms(2)] inside_count[OF s] by auto
qed

lemma cdf_grid_inside:
  assumes "sorted_wrt (<) (axBeg t ! 0)" "lower_bound (axBeg t ! 0) xmin + max 1 minBins < size_max"
  shows "cdf_grid t minBins xmin xmax =
           Some (if cdf_reuses t minBins xmin xmax
                 then (length (filter (\<lambda>g. xmin \<le> g \<and> g < xmax) (axBeg t ! 0)) + 1,
                       xmin # filter (\<lambda>g. xmin \<le> g \<and> g < xmax) (axBeg t ! 0) @ [xmax])
                 else (max 1 minBins,
                       if axLog t ! 0 then buildLogGrid xmin xmax (max 1 minBins)
                       else buildLinearGrid xmin xmax (max 1 minBins)))"
proof -
  let ?g = "axBeg t ! 0"
  let ?a = "lower_bound ?g xmin" and ?b = "lower_bound ?g xmax"
  let ?inside = "filter (\<lambda>g. xmin \<le> g \<and> g < xmax) ?g"
  have s: "sorted ?g" using assms(1) by (rule strict_sorted_imp_sorted)
  have cnt: "length ?inside = ?b - ?a" by (rule inside_count[OF s])
  have sl: "take (?b - ?a) (drop ?a ?g) = ?inside" by (rule inside_slice[OF s])
  have "1 + ?b - ?a = length ?inside + 1" if "cdf_reuses t minBins xmin xmax"
    using that cdf_reuses_nowrap[OF assms(2)] cnt by simp
  then show ?thesis
    using sl by (simp add: cdf_grid_cases[OF assms(2)])
qed

lemma buildLinearGrid_nth:
  "i \<le> n \<Longrightarrow> buildLinearGrid xmin xmax n ! i = xmin + (xmax - xmin) * (real i / real n)"
  unfolding buildLinearGrid_def by (subst nth_map_upt) simp_all

lemma buildLogGrid_nth:
  "i \<le> n \<Longrightarrow> buildLogGrid xmin xmax n ! i = xmin * (xmax / xmin) powr (real i / real n)"
  unfolding buildLogGrid_def by (subst nth_map_upt) simp_all

lemma buildLinearGrid_direction:
  assumes "0 < n"
  shows "(\<forall>i < n. buildLinearGrid xmin xmax n ! i \<le> buildLinearGrid xmin xmax n ! Suc i) \<or>
         (\<forall>i < n. buildLinearGrid xmin xmax n ! Suc i \<le> buildLinearGrid xmin xmax n ! i)"
proof (cases "xmin \<le> xmax")
  case True
  have "buildLinearGrid xmin xmax n ! i \<le> buildLinearGrid xmin xmax n ! Suc i" if "i < n" for i
  proof -
    have "real i / real n \<le> real (Suc i) / real n" using assms by (simp add: divide_right_mono)
    then have "(xmax - xmin) * (real i / real n) \<le> (xmax - xmin) * (real (Suc i) / real n)"
      using True by (intro mult_left_mono) simp_all
    then show ?thesis using that by (simp add: buildLinearGrid_nth)
  qed
  then show ?thesis by blast
next
  case False
  have "buildLinearGrid xmin xmax n ! Suc i \<le> buildLinearGrid xmin xmax n ! i" if "i < n" for i
  proof -
    have "real i / real n \<le> real (Suc i) / real n" using assms by (simp add: divide_right_mono)
    then have "(xmax - xmin) * (real (Suc i) / real n) \<le> (xmax - xmin) * (real i / real n)"
      using False by (intro mult_left_mono_neg) simp_all
    then show ?thesis using that by (simp add: buildLinearGrid_nth)
  qed
  then show ?thesis by blast
qed

lemma buildLogGrid_direction:
  assumes "0 < n" "0 < xmin" "0 < xmax"
  shows "(\<forall>i < n. buildLogGrid xmin xmax n ! i \<le> buildLogGrid xmin xmax n ! Suc i) \<or>
         (\<forall>i < n. buildLogGrid xmin xmax n ! Suc i \<le> buildLogGrid xmin xmax n ! i)"
proof (cases "1 \<le> xmax / xmin")
  case True
  have "buildLogGrid xmin xmax n ! i \<le> buildLogGrid xmin xmax n ! Suc i" if "i < n" for i
  proof -
    have "real i / real n \<le> real (Suc i) / real n" using assms(1) by (simp add: divide_right_mono)
    then have "(xmax / xmin) powr (real i / real n) \<le> (xmax / xmin) powr (real (Suc i) / real n)"
      using True by (rule powr_mono)
    then have "xmin * (xmax / xmin) powr (real i / real n)
             \<le> xmin * (xmax / xmin) powr (real (Suc i) / real n)"
      using assms(2) by (intro mult_left_mono) simp_all
    then show ?thesis using that by (simp add: buildLogGrid_nth)
  qed
  then show ?thesis by blast
next
  case False
  then have r: "0 \<le> xmax / xmin" "xmax / xmin \<le> 1" using assms(2,3) by simp_all
  have "buildLogGrid xmin xmax n ! Suc i \<le> buildLogGrid xmin xmax n ! i" if "i < n" for i
  proof -
    have "real i / real n \<le> real (Suc i) / real n" using assms(1) by (simp add: divide_right_mono)
    then have "(xmax / xmin) powr (real (Suc i) / real n) \<le> (xmax / xmin) powr (real i / real n)"
      using r by (rule powr_mono')
    then have "xmin * (xmax / xmin) powr (real (Suc i) / real n)
             \<le> xmin * (xmax / xmin) powr (real i / real n)"
      using assms(2) by (intro mult_left_mono) simp_all
    then show ?thesis using that by (simp add: buildLogGrid_nth)
  qed
  then show ?thesis by blast
qed

lemma reused_grid_sorted:
  assumes "sorted g" "filter (\<lambda>a. xmin \<le> a \<and> a < xmax) g \<noteq> []"
  shows "sorted (xmin # filter (\<lambda>a. xmin \<le> a \<and> a < xmax) g @ [xmax])"
proof -
  let ?inside = "filter (\<lambda>a. xmin \<le> a \<and> a < xmax) g"
  obtain a where "a \<in> set ?inside" using assms(2) by (cases ?inside) auto
  then have "xmin \<le> xmax" by auto
  moreover have "sorted ?inside" using assms(1) by (simp add: sorted_wrt_filter)
  ultimately show ?thesis by (auto simp: sorted_append)
qed

lemma cdf_grid_direction:
  assumes "sorted_wrt (<) (axBeg t ! 0)" "lower_bound (axBeg t ! 0) xmin + max 1 minBins < size_max"
    "axLog t ! 0 \<longrightarrow> 0 < xmin \<and> 0 < xmax"
    "cdf_grid t minBins xmin xmax = Some (n, xs)"
  shows "(\<forall>i < n. xs ! i \<le> xs ! Suc i) \<or> (\<forall>i < n. xs ! Suc i \<le> xs ! i)"
proof (cases "cdf_reuses t minBins xmin xmax")
  case True
  let ?g = "axBeg t ! 0"
  let ?inside = "filter (\<lambda>g. xmin \<le> g \<and> g < xmax) ?g"
  have s: "sorted ?g" using assms(1) by (rule strict_sorted_imp_sorted)
  have "max 1 minBins \<le> length ?inside"
    using True cdf_reuses_inside[OF assms(1,2)] by simp
  then have ne: "?inside \<noteq> []" by auto
  have xs: "xs = xmin # ?inside @ [xmax]" and n: "n = length ?inside + 1"
    using assms(4) True by (simp_all add: cdf_grid_inside[OF assms(1,2)])
  have "sorted xs" unfolding xs by (rule reused_grid_sorted[OF s ne])
  then have "\<forall>i < n. xs ! i \<le> xs ! Suc i"
    unfolding sorted_iff_nth_Suc using xs n by simp
  then show ?thesis by blast
next
  case False
  have n: "n = max 1 minBins" "0 < n"
    using assms(4) False by (auto simp: cdf_grid_inside[OF assms(1,2)])
  show ?thesis
  proof (cases "axLog t ! 0")
    case True
    then have "xs = buildLogGrid xmin xmax n"
      using assms(4) False by (auto simp: cdf_grid_inside[OF assms(1,2)] n)
    then show ?thesis using buildLogGrid_direction[OF n(2), of xmin xmax] assms(3) True by simp
  next
    case ax: False
    then have "xs = buildLinearGrid xmin xmax n"
      using assms(4) False by (auto simp: cdf_grid_inside[OF assms(1,2)] n)
    then show ?thesis using buildLinearGrid_direction[OF n(2), of xmin xmax] by simp
  qed
qed

subsection \<open>The loop of \<open>cdf\<close>\<close>

lemma cumulative_length:
  "cumulative t vs xs n = Some Ys \<Longrightarrow> length Ys = n + 1"
  by (induction n arbitrary: Ys) (auto split: option.splits)

lemma cumulative_total:
  assumes "opened t"
  shows "\<exists>Ys. cumulative t vs xs n = Some Ys"
proof (induction n)
  case 0
  then show ?case by simp
next
  case (Suc n)
  then obtain Ys where "cumulative t vs xs n = Some Ys" by blast
  moreover obtain y where "op_call t (xs ! n # vs) = Some y"
    using op_call_total[OF assms] by blast
  ultimately show ?case by simp
qed

lemma cumulative_Suc_prefix:
  assumes "cumulative t vs xs (Suc n) = Some Ys"
  shows "\<exists>Ys' y. cumulative t vs xs n = Some Ys' \<and> op_call t (xs ! n # vs) = Some y \<and>
           Ys = Ys' @ [Ys' ! n + y * (xs ! Suc n - xs ! n)]"
proof -
  from assms obtain Ys' y where a: "cumulative t vs xs n = Some Ys'"
    "op_call t (xs ! n # vs) = Some y" "Ys = Ys' @ [last Ys' + y * (xs ! Suc n - xs ! n)]"
    by (auto split: option.splits)
  have "length Ys' = n + 1" using a(1) by (rule cumulative_length)
  then have "last Ys' = Ys' ! n" by (cases Ys' rule: rev_cases) (auto simp: nth_append)
  then show ?thesis using a by simp
qed

lemma cumulative_steps:
  assumes "cumulative t vs xs n = Some Ys"
  shows "Ys ! 0 = 0 \<and>
         (\<forall>i < n. \<exists>y. op_call t (xs ! i # vs) = Some y \<and>
                        Ys ! Suc i = Ys ! i + y * (xs ! Suc i - xs ! i))"
  using assms
proof (induction n arbitrary: Ys)
  case 0
  then show ?case by auto
next
  case (Suc n)
  from cumulative_Suc_prefix[OF Suc.prems] obtain Ys' y where
    a: "cumulative t vs xs n = Some Ys'" "op_call t (xs ! n # vs) = Some y"
       "Ys = Ys' @ [Ys' ! n + y * (xs ! Suc n - xs ! n)]" by blast
  have l: "length Ys' = n + 1" using a(1) by (rule cumulative_length)
  have ih: "Ys' ! 0 = 0"
    "\<forall>i < n. \<exists>y. op_call t (xs ! i # vs) = Some y \<and> Ys' ! Suc i = Ys' ! i + y * (xs ! Suc i - xs ! i)"
    using Suc.IH[OF a(1)] by simp_all
  have 0: "Ys ! 0 = 0" using ih(1) l a(3) by (simp add: nth_append)
  have "\<exists>y. op_call t (xs ! i # vs) = Some y \<and> Ys ! Suc i = Ys ! i + y * (xs ! Suc i - xs ! i)"
    if "i < Suc n" for i
  proof (cases "i < n")
    case True
    then show ?thesis using ih(2) l a(3) by (simp add: nth_append)
  next
    case False
    then have "i = n" using that by simp
    then show ?thesis using a(2,3) l by (simp add: nth_append)
  qed
  then show ?case using 0 by blast
qed

lemma cumulative_zero:
  assumes "\<And>x. op_call t (x # vs) = Some 0"
  shows "cumulative t vs xs n = Some (replicate (n + 1) 0)"
proof (induction n)
  case 0
  then show ?case by simp
next
  case (Suc n)
  then show ?case by (simp add: assms replicate_append_same)
qed

lemma cdf_total:
  assumes "opened t" "lower_bound (axBeg t ! 0) xmin + max 1 minBins < size_max"
  shows "\<exists>n xs Ys. cdf_grid t minBins xmin xmax = Some (n, xs) \<and> length xs = n + 1 \<and>
           cumulative t vs xs n = Some Ys \<and> length Ys = n + 1 \<and>
           cdf t minBins xmin xmax vs =
             Some \<lparr>cdf_xv = xs, cdf_Yv = map (\<lambda>y. fdiv y (Ys ! n)) Ys, cdf_norm = Ys ! n\<rparr>"
proof -
  obtain n xs where g: "cdf_grid t minBins xmin xmax = Some (n, xs)" "length xs = n + 1"
    using cdf_grid_total[OF assms(2)] by blast
  obtain Ys where c: "cumulative t vs xs n = Some Ys" using cumulative_total[OF assms(1)] by blast
  have "length Ys = n + 1" using c by (rule cumulative_length)
  then show ?thesis using g c by (simp add: cdf_def)
qed

lemma steps_up_le:
  fixes a :: "real list"
  assumes "\<forall>i < n. a ! i \<le> a ! Suc i" "i \<le> n"
  shows "a ! 0 \<le> a ! i"
  using assms(2)
proof (induction i)
  case 0
  then show ?case by simp
next
  case (Suc i)
  then have "a ! 0 \<le> a ! i" "a ! i \<le> a ! Suc i" using assms(1) by simp_all
  then show ?case by simp
qed

lemma steps_down_le:
  fixes a :: "real list"
  assumes "\<forall>i < n. a ! Suc i \<le> a ! i" "i \<le> n"
  shows "a ! i \<le> a ! 0"
  using assms(2)
proof (induction i)
  case 0
  then show ?case by simp
next
  case (Suc i)
  then have "a ! i \<le> a ! 0" "a ! Suc i \<le> a ! i" using assms(1) by simp_all
  then show ?case by simp
qed

lemma normalised_sorted:
  fixes Ys :: "real list"
  assumes "length Ys = n + 1" "Ys ! 0 = 0" "Ys ! n \<noteq> 0"
    "(\<forall>i < n. Ys ! i \<le> Ys ! Suc i) \<or> (\<forall>i < n. Ys ! Suc i \<le> Ys ! i)"
  shows "sorted (map (\<lambda>y. y / Ys ! n) Ys)"
  unfolding sorted_iff_nth_Suc
proof (intro allI impI)
  fix i assume "Suc i < length (map (\<lambda>y. y / Ys ! n) Ys)"
  then have i: "i < n" using assms(1) by simp
  from assms(4) have "Ys ! i / Ys ! n \<le> Ys ! Suc i / Ys ! n"
  proof
    assume up: "\<forall>i < n. Ys ! i \<le> Ys ! Suc i"
    then have "0 \<le> Ys ! n" using steps_up_le[OF up, of n] assms(2) by simp
    then show ?thesis using up i by (intro divide_right_mono) simp_all
  next
    assume down: "\<forall>i < n. Ys ! Suc i \<le> Ys ! i"
    then have "Ys ! n \<le> 0" using steps_down_le[OF down, of n] assms(2) by simp
    then show ?thesis using down i by (intro divide_right_mono_neg) simp_all
  qed
  then show "map (\<lambda>y. y / Ys ! n) Ys ! i \<le> map (\<lambda>y. y / Ys ! n) Ys ! Suc i"
    using i assms(1) by simp
qed

lemma cumulative_direction:
  assumes "cumulative t vs xs n = Some Ys"
    "\<And>x y. op_call t (x # vs) = Some y \<Longrightarrow> 0 \<le> y"
    "(\<forall>i < n. xs ! i \<le> xs ! Suc i) \<or> (\<forall>i < n. xs ! Suc i \<le> xs ! i)"
  shows "(\<forall>i < n. Ys ! i \<le> Ys ! Suc i) \<or> (\<forall>i < n. Ys ! Suc i \<le> Ys ! i)"
proof -
  have st: "\<forall>i < n. \<exists>y. op_call t (xs ! i # vs) = Some y \<and>
                        Ys ! Suc i = Ys ! i + y * (xs ! Suc i - xs ! i)"
    using cumulative_steps[OF assms(1)] by simp
  from assms(3) show ?thesis
  proof
    assume up: "\<forall>i < n. xs ! i \<le> xs ! Suc i"
    have "Ys ! i \<le> Ys ! Suc i" if i: "i < n" for i
    proof -
      obtain y where y: "op_call t (xs ! i # vs) = Some y"
        "Ys ! Suc i = Ys ! i + y * (xs ! Suc i - xs ! i)" using st i by blast
      have "0 \<le> y * (xs ! Suc i - xs ! i)" using assms(2)[OF y(1)] up i by simp
      then show ?thesis using y(2) by simp
    qed
    then show ?thesis by blast
  next
    assume down: "\<forall>i < n. xs ! Suc i \<le> xs ! i"
    have "Ys ! Suc i \<le> Ys ! i" if i: "i < n" for i
    proof -
      obtain y where y: "op_call t (xs ! i # vs) = Some y"
        "Ys ! Suc i = Ys ! i + y * (xs ! Suc i - xs ! i)" using st i by blast
      have "y * (xs ! Suc i - xs ! i) \<le> 0"
        using assms(2)[OF y(1)] down i by (intro mult_nonneg_nonpos) simp_all
      then show ?thesis using y(2) by simp
    qed
    then show ?thesis by blast
  qed
qed

subsection \<open>The concrete scenarios, evaluated\<close>

lemma upt_4: "[0..<4] = [0, 1, 2, 3]"
  by (simp add: eval_nat_numeral)

lemmas op_call_eval = op_call_def precompute_def axis_bin_def axis_frac_def bin_frac_def rd_def
      terms_def valueAtIndices_def flattenedIndex_def interpolate_def upt_2

lemma tbl1_grid: "cdf_grid tbl1 1 1 8 = Some (4, [1, 1, 2, 4, 8])"
  by (simp add: cdf_grid_def cdf_reuses_def tbl1_def size_max_def)

lemma tbl1_values:
  "op_call tbl1 [1] = Some 10" "op_call tbl1 [2] = Some 20" "op_call tbl1 [4] = Some 40"
  by (simp_all add: op_call_eval tbl1_def)

lemma tbl1_cumulative: "cumulative tbl1 [] [1, 1, 2, 4, 8] 4 = Some [0, 0, 10, 50, 210]"
  by (simp add: eval_nat_numeral tbl1_values)

lemma tbl1_cdf:
  "cdf tbl1 1 1 8 [] = Some \<lparr>cdf_xv = [1, 1, 2, 4, 8],
     cdf_Yv = [Finite 0, Finite 0, Finite (1 / 21), Finite (5 / 21), Finite 1], cdf_norm = 210\<rparr>"
  unfolding cdf_def tbl1_grid by (simp add: tbl1_cumulative fdiv_def)

lemma tbl_zero_grid: "cdf_grid tbl_zero 1 1 8 = Some (4, [1, 1, 2, 4, 8])"
  by (simp add: cdf_grid_def cdf_reuses_def tbl_zero_def size_max_def)

lemma tbl_zero_values:
  "op_call tbl_zero [1] = Some 0" "op_call tbl_zero [2] = Some 0" "op_call tbl_zero [4] = Some 0"
  by (simp_all add: op_call_eval tbl_zero_def)

lemma tbl_zero_cumulative: "cumulative tbl_zero [] [1, 1, 2, 4, 8] 4 = Some [0, 0, 0, 0, 0]"
  by (simp add: eval_nat_numeral tbl_zero_values)

lemma tbl_zero_cdf:
  "cdf tbl_zero 1 1 8 [] = Some \<lparr>cdf_xv = [1, 1, 2, 4, 8],
     cdf_Yv = [NotFinite, NotFinite, NotFinite, NotFinite, NotFinite], cdf_norm = 0\<rparr>"
  unfolding cdf_def tbl_zero_grid by (simp add: tbl_zero_cumulative fdiv_def)

lemma tbl2_opened: "opened tbl2"
  by (simp add: opened_def tbl2_def)

lemma tbl2_pre: "precompute tbl2 [3, 15] = Some [(2, 1 / 2), (Suc 0, 1 / 2)]"
  by (simp add: precompute_def tbl2_def axis_bin_def axis_frac_def bin_frac_def rd_def upt_2)

lemma tbl2_terms: "terms tbl2 [(2, 1 / 2), (Suc 0, 1 / 2)] = Some [(1 / 4, 80), (1 / 4, 40), (1 / 4, 40), (1 / 4, 20)]"
  by (simp add: terms_def tbl2_def valueAtIndices_def flattenedIndex_def rd_def upt_4)

lemma tbl2_value: "op_call tbl2 [3, 15] = Some 45"
proof -
  have "qtyLog tbl2 = False" by (simp add: tbl2_def)
  then show ?thesis by (simp add: op_call_def tbl2_pre tbl2_terms interpolate_def)
qed

lemma tbl2_grid: "cdf_grid tbl2 1 1 4 = Some (3, [1, 1, 2, 4])"
  by (simp add: cdf_grid_def cdf_reuses_def tbl2_def size_max_def)

lemma tbl2_values: "op_call tbl2 [1, 15] = Some 15" "op_call tbl2 [2, 15] = Some 30"
  by (simp_all add: op_call_eval tbl2_def upt_4)

lemma tbl2_cumulative: "cumulative tbl2 [15] [1, 1, 2, 4] 3 = Some [0, 0, 15, 75]"
  by (simp add: eval_nat_numeral tbl2_values)

lemma tbl2_cdf:
  "cdf tbl2 1 1 4 [15] = Some \<lparr>cdf_xv = [1, 1, 2, 4],
     cdf_Yv = [Finite 0, Finite 0, Finite (1 / 5), Finite 1], cdf_norm = 75\<rparr>"
  unfolding cdf_def tbl2_grid by (simp add: tbl2_cumulative fdiv_def)

section \<open>The lookup: \<open>operator()\<close> and \<open>operator[]\<close>\<close>

text \<open>
  C1. The table with one linear axis \<open>[1, 2, 4, 8]\<close> and the linear quantity
  \<open>[10, 20, 40, 80]\<close> returns 30 at 3 (the middle of the bin from 2 to 4), 10 at 0.5
  (clamped to the left border) and 80 at 100 (clamped to the right border).
\<close>

theorem scenario_value:
  "op_call tbl1 [3] = Some 30 \<and> op_call tbl1 [1 / 2] = Some 10 \<and> op_call tbl1 [100] = Some 80"
  by (simp add: op_call_def precompute_def tbl1_def axis_bin_def axis_frac_def bin_frac_def rd_def
      terms_def valueAtIndices_def flattenedIndex_def interpolate_def upt_2)

text \<open>
  C2. On an opened table, for every axis \<open>k\<close>: a coordinate below the first grid point of
  the axis gives the same result as the first grid point, a coordinate above the last grid
  point the same result as the last grid point, whatever the other coordinates are; and
  every lookup returns a value.
\<close>

theorem clamping:
  assumes "opened t" "length vals = length (axBeg t)" "k < length (axBeg t)"
  shows "(\<exists>y. op_call t vals = Some y) \<and>
         (vals ! k < hd (axBeg t ! k) \<longrightarrow>
            op_call t vals = op_call t (vals[k := hd (axBeg t ! k)])) \<and>
         (last (axBeg t ! k) < vals ! k \<longrightarrow>
            op_call t vals = op_call t (vals[k := last (axBeg t ! k)]))"
proof -
  have mem: "axBeg t ! k \<in> set (axBeg t)" using assms(3) by simp
  then have g: "2 \<le> length (axBeg t ! k)" "sorted_wrt (<) (axBeg t ! k)"
    using assms(1) by (simp_all add: opened_def)
  then have ne: "axBeg t ! k \<noteq> []" by auto
  have below: "op_call t vals = op_call t (vals[k := hd (axBeg t ! k)])"
    if "vals ! k < hd (axBeg t ! k)"
  proof (rule op_call_cong, rule precompute_cong)
    fix j assume "j < length (axBeg t)"
    show "axis_bin (axBeg t ! j) (axLog t ! j) (vals ! j)
        = axis_bin (axBeg t ! j) (axLog t ! j) (vals[k := hd (axBeg t ! k)] ! j)"
    proof (cases "j = k")
      case True
      then show ?thesis using axis_bin_below[OF ne, of "vals ! k"] that assms(2,3) by simp
    next
      case False
      then show ?thesis by simp
    qed
  qed
  have above: "op_call t vals = op_call t (vals[k := last (axBeg t ! k)])"
    if "last (axBeg t ! k) < vals ! k"
  proof (rule op_call_cong, rule precompute_cong)
    fix j assume "j < length (axBeg t)"
    show "axis_bin (axBeg t ! j) (axLog t ! j) (vals ! j)
        = axis_bin (axBeg t ! j) (axLog t ! j) (vals[k := last (axBeg t ! k)] ! j)"
    proof (cases "j = k")
      case True
      then show ?thesis using axis_bin_above[OF g(2) g(1) that] assms(2,3) by simp
    next
      case False
      then show ?thesis by simp
    qed
  qed
  show ?thesis using op_call_total[OF assms(1)] below above by blast
qed

theorem clamping_witness:
  "opened tbl1 \<and> op_call tbl1 [1 / 2] = op_call tbl1 [1] \<and> op_call tbl1 [100] = op_call tbl1 [8]
   \<and> (\<exists>y. op_call tbl1 [100] = Some y) \<and>
   opened tbl2 \<and> op_call tbl2 [0, 100] = op_call tbl2 [0, 20] \<and>
   op_call tbl2 [0, 20] = op_call tbl2 [1, 20]"
proof -
  have o: "opened tbl1" by (simp add: opened_def tbl1_def)
  have a: "axBeg tbl1 ! 0 = [1, 2, 4, 8]" "length (axBeg tbl1) = 1" by (simp_all add: tbl1_def)
  have lo: "op_call tbl1 [1 / 2] = op_call tbl1 [1]"
    using clamping[OF o, of "[1 / 2]" 0] by (simp add: a)
  have hi: "op_call tbl1 [100] = op_call tbl1 [8]"
    using clamping[OF o, of "[100]" 0] by (simp add: a)
  have "\<exists>y. op_call tbl1 [100] = Some y"
    using clamping[OF o, of "[100]" 0] by (simp only: a list.size)
  then have hi: "op_call tbl1 [100] = op_call tbl1 [8]" "\<exists>y. op_call tbl1 [100] = Some y"
    using hi by blast+
  have b: "axBeg tbl2 ! 0 = [1, 2, 4]" "axBeg tbl2 ! Suc 0 = [10, 20]" "length (axBeg tbl2) = 2"
    by (simp_all add: tbl2_def)
  have hi2: "op_call tbl2 [0, 100] = op_call tbl2 [0, 20]"
    using clamping[OF tbl2_opened, of "[0, 100]" 1] by (simp add: b)
  have lo2: "op_call tbl2 [0, 20] = op_call tbl2 [1, 20]"
    using clamping[OF tbl2_opened, of "[0, 20]" 0] by (simp add: b)
  show ?thesis using o lo hi tbl2_opened hi2 lo2 by blast
qed

text \<open>
  C8. For a one-dimensional table the single-coordinate form \<open>operator[]\<close> returns what the
  general form \<open>operator()\<close> returns for that coordinate.
\<close>

theorem op_index_is_op_call:
  "op_index t x = op_call t [x]"
  by (simp add: op_index_def)

text \<open>
  C9. On an opened table and for every coordinate vector, the first loop of \<open>operator()\<close>
  yields for every axis \<open>k\<close> an upper bin index \<open>i2[k]\<close> with
  \<open>1 \<le> i2[k] \<le> axLen[k] - 1\<close>; for every one of the \<open>2^N\<close> terms the indices (each
  \<open>i2[k]\<close> or \<open>i2[k] - 1\<close>) are below the axis lengths and the flattened index lies inside
  the value block; and the lookup returns a value.
\<close>

theorem bin_indices_in_range:
  assumes "opened t" "length vals = length (axBeg t)"
  shows "\<exists>pre. precompute t vals = Some pre \<and>
           (\<forall>k < length (axBeg t). 1 \<le> fst (pre ! k) \<and> fst (pre ! k) \<le> axLen t k - 1) \<and>
           (\<forall>tt < 2 ^ length (axBeg t).
              (\<forall>k < length (axBeg t).
                 fst (term_loop tt 1 pre) ! k < axLen t k \<and>
                 (fst (term_loop tt 1 pre) ! k = fst (pre ! k) \<or>
                  fst (term_loop tt 1 pre) ! k = fst (pre ! k) - 1)) \<and>
              flattenedIndex t (fst (term_loop tt 1 pre)) < length (qtyBeg t)) \<and>
           (\<exists>y. op_call t vals = Some y)"
proof -
  obtain pre where p: "precompute t vals = Some pre"
    using precompute_total[OF assms(1)] by blast
  have len: "length pre = length (axBeg t)" using p by (simp add: precompute_Some_iff)
  have "fst (term_loop tt 1 pre) ! k = fst (pre ! k) \<or>
        fst (term_loop tt 1 pre) ! k = fst (pre ! k) - 1" if "k < length (axBeg t)" for tt k
  proof -
    have "(tt div 2 ^ k) mod 2 = 0 \<or> (tt div 2 ^ k) mod 2 = 1" by auto
    then show ?thesis using term_loop_nth[of k pre tt 1] that len by auto
  qed
  then show ?thesis
    using p precompute_bounds[OF assms(1) p] term_loop_index_lt[OF assms(1) p]
      flattenedIndex_in_block[OF assms(1) p] op_call_total[OF assms(1)]
    by blast
qed

theorem bin_indices_in_range_witness:
  "opened tbl1 \<and>
   (\<exists>pre. precompute tbl1 [3] = Some pre \<and> 1 \<le> fst (pre ! 0) \<and> fst (pre ! 0) \<le> 3 \<and>
      flattenedIndex tbl1 (fst (term_loop 1 1 pre)) < 4 \<and> (\<exists>y. op_call tbl1 [3] = Some y)) \<and>
   opened tbl2 \<and>
   (\<exists>pre. precompute tbl2 [0, 100] = Some pre \<and> 1 \<le> fst (pre ! 0) \<and> fst (pre ! 0) \<le> 2 \<and>
      1 \<le> fst (pre ! 1) \<and> fst (pre ! 1) \<le> 1 \<and>
      flattenedIndex tbl2 (fst (term_loop 0 1 pre)) < 12 \<and>
      flattenedIndex tbl2 (fst (term_loop 3 1 pre)) < 12 \<and>
      (\<exists>y. op_call tbl2 [0, 100] = Some y))"
proof -
  have o: "opened tbl1" by (simp add: opened_def tbl1_def)
  have a: "length (axBeg tbl1) = 1" "axLen tbl1 0 = 4" "length (qtyBeg tbl1) = 4"
    by (simp_all add: tbl1_def axLen_def)
  have l: "length [3::real] = length (axBeg tbl1)" by (simp add: a)
  from bin_indices_in_range[OF o l] obtain pre where
    p: "precompute tbl1 [3] = Some pre"
       "\<forall>k < length (axBeg tbl1). 1 \<le> fst (pre ! k) \<and> fst (pre ! k) \<le> axLen tbl1 k - 1"
       "\<forall>tt < 2 ^ length (axBeg tbl1).
              (\<forall>k < length (axBeg tbl1).
                 fst (term_loop tt 1 pre) ! k < axLen tbl1 k \<and>
                 (fst (term_loop tt 1 pre) ! k = fst (pre ! k) \<or>
                  fst (term_loop tt 1 pre) ! k = fst (pre ! k) - 1)) \<and>
              flattenedIndex tbl1 (fst (term_loop tt 1 pre)) < length (qtyBeg tbl1)"
       "\<exists>y. op_call tbl1 [3] = Some y"
    by blast
  have "1 \<le> fst (pre ! 0) \<and> fst (pre ! 0) \<le> 3" using p(2) by (simp add: a)
  moreover have "flattenedIndex tbl1 (fst (term_loop 1 1 pre)) < 4"
    using p(3) by (simp add: a)
  ultimately have one: "\<exists>pre. precompute tbl1 [3] = Some pre \<and> 1 \<le> fst (pre ! 0) \<and>
      fst (pre ! 0) \<le> 3 \<and> flattenedIndex tbl1 (fst (term_loop 1 1 pre)) < 4 \<and>
      (\<exists>y. op_call tbl1 [3] = Some y)"
    using p(1,4) by blast
  have a2: "length (axBeg tbl2) = 2" "axLen tbl2 0 = 3" "axLen tbl2 (Suc 0) = 2"
    "length (qtyBeg tbl2) = 12"
    by (simp_all add: tbl2_def axLen_def)
  have l2: "length [0, 100::real] = length (axBeg tbl2)" by (simp add: a2)
  from bin_indices_in_range[OF tbl2_opened l2] obtain pre2 where
    q: "precompute tbl2 [0, 100] = Some pre2"
       "\<forall>k < length (axBeg tbl2). 1 \<le> fst (pre2 ! k) \<and> fst (pre2 ! k) \<le> axLen tbl2 k - 1"
       "\<forall>tt < 2 ^ length (axBeg tbl2).
              (\<forall>k < length (axBeg tbl2).
                 fst (term_loop tt 1 pre2) ! k < axLen tbl2 k \<and>
                 (fst (term_loop tt 1 pre2) ! k = fst (pre2 ! k) \<or>
                  fst (term_loop tt 1 pre2) ! k = fst (pre2 ! k) - 1)) \<and>
              flattenedIndex tbl2 (fst (term_loop tt 1 pre2)) < length (qtyBeg tbl2)"
       "\<exists>y. op_call tbl2 [0, 100] = Some y"
    by blast
  have "1 \<le> fst (pre2 ! 0) \<and> fst (pre2 ! 0) \<le> axLen tbl2 0 - 1"
    "1 \<le> fst (pre2 ! 1) \<and> fst (pre2 ! 1) \<le> axLen tbl2 1 - 1"
    using q(2) by (simp_all add: a2(1))
  then have "1 \<le> fst (pre2 ! 0) \<and> fst (pre2 ! 0) \<le> 2"
    "1 \<le> fst (pre2 ! 1) \<and> fst (pre2 ! 1) \<le> 1"
    by (simp_all add: a2)
  moreover have "flattenedIndex tbl2 (fst (term_loop 0 1 pre2)) < 12"
    "flattenedIndex tbl2 (fst (term_loop 3 1 pre2)) < 12"
    using q(3) by (simp_all add: a2)
  ultimately have two: "\<exists>pre. precompute tbl2 [0, 100] = Some pre \<and> 1 \<le> fst (pre ! 0) \<and>
      fst (pre ! 0) \<le> 2 \<and> 1 \<le> fst (pre ! 1) \<and> fst (pre ! 1) \<le> 1 \<and>
      flattenedIndex tbl2 (fst (term_loop 0 1 pre)) < 12 \<and>
      flattenedIndex tbl2 (fst (term_loop 3 1 pre)) < 12 \<and>
      (\<exists>y. op_call tbl2 [0, 100] = Some y)"
    using q(1,4) by blast
  show ?thesis using o one tbl2_opened two by blast
qed

text \<open>
  C6. On an opened table with a logarithmic quantity the lookup reads the \<open>2^N\<close> corner
  values with their front factors; when all corner values are positive the result is
  \<open>10\<close> to the power of the weighted sum of their base-10 logarithms; when a corner value
  is zero or negative the lookup still returns a value, the plain weighted sum.
\<close>

theorem log_interpolation_with_fallback:
  assumes "opened t" "length vals = length (axBeg t)" "qtyLog t"
  shows "\<exists>pre tys. precompute t vals = Some pre \<and> terms t pre = Some tys \<and>
           length tys = 2 ^ length (axBeg t) \<and>
           (\<forall>tt < 2 ^ length (axBeg t).
              tys ! tt = (snd (term_loop tt 1 pre),
                          qtyBeg t ! flattenedIndex t (fst (term_loop tt 1 pre)))) \<and>
           ((\<forall>ty \<in> set tys. 0 < snd ty) \<longrightarrow>
              op_call t vals = Some (10 powr (\<Sum>ty\<leftarrow>tys. fst ty * log 10 (snd ty)))) \<and>
           ((\<exists>ty \<in> set tys. snd ty \<le> 0) \<longrightarrow>
              op_call t vals = Some (\<Sum>ty\<leftarrow>tys. fst ty * snd ty))"
proof -
  obtain pre where p: "precompute t vals = Some pre"
    using precompute_total[OF assms(1)] by blast
  have len: "length pre = length (axBeg t)" using p by (simp add: precompute_Some_iff)
  define tys where "tys = map (\<lambda>tt. (snd (term_loop tt 1 pre),
                       qtyBeg t ! flattenedIndex t (fst (term_loop tt 1 pre))))
             [0..<2 ^ length pre]"
  have ts: "terms t pre = Some tys" unfolding tys_def by (rule terms_total[OF assms(1) p])
  have o: "op_call t vals = Some (interpolate (qtyLog t) tys)" by (simp add: op_call_def p ts)
  have "op_call t vals = Some (10 powr (\<Sum>ty\<leftarrow>tys. fst ty * log 10 (snd ty)))"
    if "\<forall>ty \<in> set tys. 0 < snd ty"
    using o interpolate_log[OF assms(3) that] by simp
  moreover have "op_call t vals = Some (\<Sum>ty\<leftarrow>tys. fst ty * snd ty)"
    if "\<exists>ty \<in> set tys. snd ty \<le> 0"
  proof -
    have "\<not> (qtyLog t \<and> (\<forall>ty \<in> set tys. 0 < snd ty))" using that by force
    from interpolate_linear[OF this] o show ?thesis by simp
  qed
  moreover have "length tys = 2 ^ length (axBeg t)" by (simp add: tys_def len)
  moreover have "\<forall>tt < 2 ^ length (axBeg t).
              tys ! tt = (snd (term_loop tt 1 pre),
                          qtyBeg t ! flattenedIndex t (fst (term_loop tt 1 pre)))"
    by (simp add: tys_def len)
  ultimately show ?thesis using p ts by blast
qed

theorem log_interpolation_with_fallback_witness:
  "opened tbl_log \<and> qtyLog tbl_log \<and> opened tbl_log0 \<and> qtyLog tbl_log0 \<and>
   op_call tbl_log [3] = Some (10 powr (1 / 2 * log 10 40 + 1 / 2 * log 10 20)) \<and>
   op_call tbl_log0 [3] = Some 20"
proof -
  have o: "opened tbl_log" "opened tbl_log0" by (simp_all add: opened_def tbl_log_def tbl_log0_def)
  have q: "qtyLog tbl_log" "qtyLog tbl_log0" by (simp_all add: tbl_log_def tbl_log0_def)
  have l: "length [3::real] = length (axBeg tbl_log)" "length [3::real] = length (axBeg tbl_log0)"
    by (simp_all add: tbl_log_def tbl_log0_def)
  have p: "precompute tbl_log [3] = Some [(2, 1 / 2)]" "precompute tbl_log0 [3] = Some [(2, 1 / 2)]"
    by (simp_all add: precompute_def tbl_log_def tbl_log0_def axis_bin_def axis_frac_def bin_frac_def rd_def)
  have ts: "terms tbl_log [(2, 1 / 2)] = Some [(1 / 2, 40), (1 / 2, 20)]"
    "terms tbl_log0 [(2, 1 / 2)] = Some [(1 / 2, 40), (1 / 2, 0)]"
    by (simp_all add: terms_def tbl_log_def tbl_log0_def valueAtIndices_def flattenedIndex_def rd_def upt_2)
  have a: "op_call tbl_log [3] = Some (10 powr (1 / 2 * log 10 40 + 1 / 2 * log 10 20))"
    using log_interpolation_with_fallback[OF o(1) l(1) q(1)] p(1) ts(1) by auto
  have b: "op_call tbl_log0 [3] = Some 20"
    using log_interpolation_with_fallback[OF o(2) l(2) q(2)] p(2) ts(2) by auto
  show ?thesis using o q a b by blast
qed

section \<open>The cumulative distribution: \<open>cdf\<close>\<close>

text \<open>
  C3, as the source has it. When the sum \<open>minRight + n\<close> does not wrap around, the internal
  grid is used if and only if it has at least \<open>max(1, minBins)\<close> grid points \<open>g\<close> with
  \<open>xmin \<le> g < xmax\<close>; then \<open>xv\<close> is \<open>xmin\<close>, these grid points and \<open>xmax\<close>. Otherwise
  \<open>xv\<close> is the grid that \<open>NR::buildLogGrid\<close> (axis 0 logarithmic) or \<open>NR::buildLinearGrid\<close>
  (axis 0 linear) builds from \<open>xmin\<close> to \<open>xmax\<close> for \<open>max(1, minBins)\<close> bins.
\<close>

theorem cdf_grid_decision:
  assumes "sorted_wrt (<) (axBeg t ! 0)" "lower_bound (axBeg t ! 0) xmin + max 1 minBins < size_max"
  shows "(cdf_reuses t minBins xmin xmax \<longleftrightarrow>
            max 1 minBins \<le> length (filter (\<lambda>g. xmin \<le> g \<and> g < xmax) (axBeg t ! 0))) \<and>
         cdf_grid t minBins xmin xmax =
           Some (if cdf_reuses t minBins xmin xmax
                 then (length (filter (\<lambda>g. xmin \<le> g \<and> g < xmax) (axBeg t ! 0)) + 1,
                       xmin # filter (\<lambda>g. xmin \<le> g \<and> g < xmax) (axBeg t ! 0) @ [xmax])
                 else (max 1 minBins,
                       if axLog t ! 0 then buildLogGrid xmin xmax (max 1 minBins)
                       else buildLinearGrid xmin xmax (max 1 minBins)))"
  using cdf_reuses_inside[OF assms] cdf_grid_inside[OF assms] by blast

theorem cdf_grid_decision_witness:
  "sorted_wrt (<) (axBeg tbl1 ! 0) \<and>
   lower_bound (axBeg tbl1 ! 0) 1 + max 1 1 < size_max \<and>
   cdf_reuses tbl1 1 1 8 \<and> cdf_grid tbl1 1 1 8 = Some (4, [1, 1, 2, 4, 8]) \<and>
   lower_bound (axBeg tbl1 ! 0) (5 / 2) + max 1 2 < size_max \<and>
   \<not> cdf_reuses tbl1 2 (5 / 2) 5 \<and>
   cdf_grid tbl1 2 (5 / 2) 5 = Some (2, [5 / 2, 15 / 4, 5]) \<and>
   lower_bound (axBeg tbl1 ! 0) 0 + max 1 (2 ^ 64 - 4) < size_max \<and>
   \<not> cdf_reuses tbl1 (2 ^ 64 - 4) 0 8"
proof -
  have g: "axBeg tbl1 ! 0 = [1, 2, 4, 8]" "axLog tbl1 ! 0 = False" by (simp_all add: tbl1_def)
  have s: "sorted_wrt (<) (axBeg tbl1 ! 0)" by (simp add: g)
  have w1: "lower_bound (axBeg tbl1 ! 0) 1 + max 1 1 < size_max" by (simp add: g size_max_def)
  have w2: "lower_bound (axBeg tbl1 ! 0) (5 / 2) + max 1 2 < size_max"
    by (simp add: g size_max_def)
  have w3: "lower_bound (axBeg tbl1 ! 0) 0 + max 1 (2 ^ 64 - 4) < size_max"
    by (simp add: g size_max_def)
  have a: "cdf_reuses tbl1 1 1 8" "cdf_grid tbl1 1 1 8 = Some (4, [1, 1, 2, 4, 8])"
    using cdf_grid_decision[OF s w1, of 8] by (simp_all add: g)
  have b: "\<not> cdf_reuses tbl1 2 (5 / 2) 5"
    "cdf_grid tbl1 2 (5 / 2) 5 = Some (2, [5 / 2, 15 / 4, 5])"
    using cdf_grid_decision[OF s w2, of 5]
    by (simp_all add: g buildLinearGrid_def numeral_2_eq_2)
  have c: "\<not> cdf_reuses tbl1 (2 ^ 64 - 4) 0 8"
    using conjunct1[OF cdf_grid_decision[OF s w3, of 8]] by (simp add: g)
  show ?thesis using s w1 a w2 b w3 c by blast
qed

text \<open>
  C3, as the specification states it, fails: with \<open>xmin\<close> on a grid point the source uses
  the internal grid where the stated rule builds a new one; with \<open>minBins = 0\<close> the
  source builds a new grid where the stated rule uses the internal one; and with
  \<open>minBins = 2^64 - 1\<close> the sum \<open>minRight + n\<close> wraps around to zero and the source uses
  the internal grid of two inner points.
\<close>

theorem cdf_grid_decision_counterexample:
  "cdf_reuses tbl1 1 1 2 \<and> \<not> spec_reuses tbl1 1 1 2 \<and>
   spec_reuses tbl1 0 (5 / 2) 3 \<and> \<not> cdf_reuses tbl1 0 (5 / 2) 3 \<and>
   cdf_reuses tbl1 (2 ^ 64 - 1) (3 / 2) 8 \<and> \<not> spec_reuses tbl1 (2 ^ 64 - 1) (3 / 2) 8"
  by (simp add: cdf_reuses_def spec_reuses_def tbl1_def size_max_def)

text \<open>
  C4, as the source has it. For the table of C1, \<open>cdf\<close> with \<open>xmin = 1\<close>, \<open>xmax = 8\<close> and
  \<open>minBins = 1\<close> uses the internal grid; the border points are \<open>[1, 1, 2, 4, 8]\<close>, because
  the grid point 1 is not below \<open>xmin\<close> and is copied after \<open>xmin\<close>; the cumulative values
  before normalization are \<open>[0, 0, 10, 50, 210]\<close>, the returned factor is 210 and the
  normalized values are \<open>[0, 0, 1/21, 5/21, 1]\<close>.
\<close>

theorem scenario_cdf:
  "cdf_grid tbl1 1 1 8 = Some (4, [1, 1, 2, 4, 8]) \<and>
   cumulative tbl1 [] [1, 1, 2, 4, 8] 4 = Some [0, 0, 10, 50, 210] \<and>
   cdf tbl1 1 1 8 [] = Some \<lparr>cdf_xv = [1, 1, 2, 4, 8],
     cdf_Yv = [Finite 0, Finite 0, Finite (1 / 21), Finite (5 / 21), Finite 1], cdf_norm = 210\<rparr>"
  using tbl1_grid tbl1_cumulative tbl1_cdf by blast

text \<open>
  C4, as the specification states it, fails: the border points are not \<open>[1, 2, 4, 8]\<close>
  and the normalized values are not the four values stated.
\<close>

theorem scenario_cdf_counterexample:
  "map_option cdf_xv (cdf tbl1 1 1 8 []) \<noteq> Some [1, 2, 4, 8] \<and>
   map_option cdf_Yv (cdf tbl1 1 1 8 [])
     \<noteq> Some [Finite 0, Finite (10 / 210), Finite (50 / 210), Finite 1]"
  unfolding tbl1_cdf by simp

end
